theory Spec2Isabelle
  imports Main "HOL-Library.Word"
begin

unbundle bit_operations_syntax

section \<open>Machine types\<close>

text \<open>
  The program is Linux/glibc C (it uses \<open>get_current_dir_name\<close> and
  \<open>pthread_attr_setaffinity_np\<close>); the model fixes the LP64 data model of that platform:
  \<open>unsigned long\<close>, \<open>size_t\<close>, \<open>ssize_t\<close> and \<open>pthread_t\<close> are 64 bits wide,
  \<open>int\<close> and \<open>unsigned int\<close> are 32 bits wide.  A signed value is kept as its bit
  pattern; the program only ever compares such values for equality or converts them to
  unsigned, so the pattern decides every branch.
\<close>

type_synonym ulong = "64 word"
type_synonym cint = "32 word"
type_synonym uint = "32 word"

section \<open>The primality predicate (\<open>IsPrimeNumber\<close>, lines 178-188)\<close>

text \<open>
  The \<open>for\<close> loop over \<open>denom\<close>, entered with \<open>denom = 2\<close>: the loop test
  \<open>denom < num\<close>, the early \<open>return 0\<close> on an exact divisor, \<open>denom++\<close>, and
  \<open>return 1\<close> when the loop test fails.
\<close>

function IsPrimeNumber_loop :: "ulong \<Rightarrow> ulong \<Rightarrow> cint" where
  "IsPrimeNumber_loop num denom =
     (if denom < num
      then (if num mod denom = 0 then 0 else IsPrimeNumber_loop num (denom + 1))
      else 1)"
  by pat_completeness auto
termination
proof (relation "measure (\<lambda>(num, denom). unat num - unat denom)")
  show "wf (measure (\<lambda>(num :: ulong, denom :: ulong). unat num - unat denom))"
    by simp
next
  fix num denom :: ulong
  assume lt: "denom < num"
  then have less: "unat denom < unat num"
    by (simp add: word_less_nat_alt)
  have "unat num < 2 ^ LENGTH(64)"
    by (rule unsigned_less)
  with less have "unat denom + unat (1 :: ulong) < 2 ^ LENGTH(64)"
    by (simp del: unsigned_less)
  then have "unat (denom + 1) = unat denom + 1"
    by (simp add: unat_add_lem [THEN iffD1])
  with less show "((num, denom + 1), (num, denom)) \<in> measure (\<lambda>(num, denom). unat num - unat denom)"
    by simp
qed

definition IsPrimeNumber :: "ulong \<Rightarrow> cint" where
  "IsPrimeNumber num = IsPrimeNumber_loop num 2"

section \<open>Decimal output (\<open>%lu\<close>, \<open>%u\<close>)\<close>

definition digit_char :: "nat \<Rightarrow> char" where
  "digit_char d = ''0123456789'' ! d"

fun decimal :: "nat \<Rightarrow> string" where
  "decimal n = (if n < 10 then [digit_char n] else decimal (n div 10) @ [digit_char (n mod 10)])"

definition newline :: char where
  "newline = CHR 0x0A"

text \<open>Reading a decimal numeral back, to state what the digits of a line denote.\<close>

definition digit_value :: "char \<Rightarrow> nat" where
  "digit_value c = of_char c - 48"

definition decimal_value :: "string \<Rightarrow> nat" where
  "decimal_value s = foldl (\<lambda>acc c. 10 * acc + digit_value c) 0 s"

text \<open>
  What a file of decimal numbers, one per line, is, stated without the formatter of the
  program: every line ends with the newline character, and holds a numeral made of
  digits only, not empty and without a leading zero unless it is the single digit.
  \<open>read_numbers\<close> reads such a file into the numbers of its lines, in order, and
  gives \<open>None\<close> for any other text.
\<close>

definition is_digit :: "char \<Rightarrow> bool" where
  "is_digit c = (c \<in> set ''0123456789'')"

definition canonical_numeral :: "string \<Rightarrow> bool" where
  "canonical_numeral s = (s \<noteq> [] \<and> list_all is_digit s \<and> (length s = 1 \<or> hd s \<noteq> CHR ''0''))"

fun read_numbers :: "string \<Rightarrow> string \<Rightarrow> nat list option" where
  "read_numbers cur [] = (if cur = [] then Some [] else None)"
| "read_numbers cur (c # cs) =
     (if c = CHR 0x0A
      then (if canonical_numeral cur
            then map_option ((#) (decimal_value cur)) (read_numbers [] cs)
            else None)
      else read_numbers (cur @ [c]) cs)"

text \<open>The text produced by \<open>fprintf(outputFile, "%lu\n", num)\<close>.\<close>

definition prime_line :: "ulong \<Rightarrow> string" where
  "prime_line num = decimal (unat num) @ [newline]"

section \<open>The worker (\<open>PrimeNumberGenerator\<close>, lines 152-176)\<close>

record ThreadArguments =
  threadNum :: uint
  cpuCoreNum :: uint
  beginCalculationsAt :: ulong
  endCalculationsAt :: ulong
  outputFileName :: string

text \<open>
  What a worker touches outside its own locals: the files, by name, and the diagnostic
  stream.  \<open>fopen(name, "w")\<close> creates or truncates, so a successful run replaces the
  whole content of the file.  Writes to an open file are taken to succeed (the code does
  not look at the result of \<open>fprintf\<close> either).
\<close>

record world =
  files :: "string \<rightharpoonup> string"
  stderr :: "string list"

text \<open>
  What the worker gets from outside: whether \<open>fopen\<close> succeeds for a name, and the value
  that the \<open>k\<close>-th read of the volatile global \<open>receivedQuitSignal\<close> returns.  The loop
  test \<open>num < endCalculationsAt && !receivedQuitSignal\<close> short-circuits, so the global is
  read once for every iteration that passes the range test; \<open>k\<close> counts these reads.
\<close>

record worker_env =
  fopen_succeeds :: "string \<Rightarrow> bool"
  receivedQuitSignal_read :: "nat \<Rightarrow> cint"

function PrimeNumberGenerator_loop :: "(nat \<Rightarrow> cint) \<Rightarrow> ulong \<Rightarrow> nat \<Rightarrow> ulong \<Rightarrow> string \<Rightarrow> string" where
  "PrimeNumberGenerator_loop quit endAt k num out =
     (if num < endAt \<and> quit k = 0
      then PrimeNumberGenerator_loop quit endAt (k + 1) (num + 1)
             (if IsPrimeNumber num \<noteq> 0 then out @ prime_line num else out)
      else out)"
  by pat_completeness auto
termination
proof (relation "measure (\<lambda>(quit, endAt, k, num, out). unat endAt - unat num)")
  show "wf (measure (\<lambda>(quit :: nat \<Rightarrow> cint, endAt :: ulong, k :: nat, num :: ulong, out :: string).
              unat endAt - unat num))"
    by simp
next
  fix quit :: "nat \<Rightarrow> cint" and endAt num :: ulong and k :: nat and out :: string
  assume "num < endAt \<and> quit k = 0"
  then have less: "unat num < unat endAt"
    by (simp add: word_less_nat_alt)
  have "unat endAt < 2 ^ LENGTH(64)"
    by (rule unsigned_less)
  with less have "unat num + unat (1 :: ulong) < 2 ^ LENGTH(64)"
    by (simp del: unsigned_less)
  then have "unat (num + 1) = unat num + 1"
    by (simp add: unat_add_lem [THEN iffD1])
  with less show "((quit, endAt, k + 1, num + 1,
                    if IsPrimeNumber num \<noteq> 0 then out @ prime_line num else out),
                   (quit, endAt, k, num, out))
                  \<in> measure (\<lambda>(quit, endAt, k, num, out). unat endAt - unat num)"
    by simp
qed

definition could_not_open :: "ThreadArguments \<Rightarrow> string" where
  "could_not_open threadArgs =
     ''Could not open '' @ outputFileName threadArgs @ '' on thread ''
       @ decimal (unat (threadNum threadArgs)) @ ''.'' @ [newline]"

text \<open>
  The result is the returned pointer (\<open>NULL\<close>, written \<open>0\<close>, on both paths) and the
  world after the call.
\<close>

definition PrimeNumberGenerator :: "worker_env \<Rightarrow> ThreadArguments \<Rightarrow> world \<Rightarrow> ulong \<times> world" where
  "PrimeNumberGenerator env threadArgs w =
     (if fopen_succeeds env (outputFileName threadArgs)
      then (0, w\<lparr>files := (files w)(outputFileName threadArgs \<mapsto>
                    PrimeNumberGenerator_loop (receivedQuitSignal_read env)
                      (endCalculationsAt threadArgs) 0 (beginCalculationsAt threadArgs) [])\<rparr>)
      else (0, w\<lparr>stderr := stderr w @ [could_not_open threadArgs]\<rparr>))"

subsection \<open>The expected content of a destination\<close>

text \<open>
  The numbers of the half-open range from \<open>b\<close> up to, not including, \<open>e\<close>, in
  ascending order; those of them that the predicate accepts; and the text of a file that
  holds given numbers, one per line.
\<close>

definition candidates :: "ulong \<Rightarrow> ulong \<Rightarrow> ulong list" where
  "candidates b e = map of_nat [unat b..<unat e]"

definition primes_in :: "ulong \<Rightarrow> ulong \<Rightarrow> ulong list" where
  "primes_in b e = filter (\<lambda>num. IsPrimeNumber num \<noteq> 0) (candidates b e)"

definition written :: "ulong list \<Rightarrow> string" where
  "written nums = concat (map prime_line nums)"

section \<open>The dispatcher (\<open>main\<close>, lines 38-145)\<close>

subsection \<open>Constants of the platform headers\<close>

definition EXIT_SUCCESS :: cint where "EXIT_SUCCESS = 0"
definition EXIT_FAILURE :: cint where "EXIT_FAILURE = 1"
definition EINVAL :: cint where "EINVAL = 22"
definition ULONG_MAX :: ulong where "ULONG_MAX = - 1"
definition FILENAME_MAX :: nat where "FILENAME_MAX = 4096"
definition sizeof_pthread_t :: ulong where "sizeof_pthread_t = 8"
definition sizeof_ThreadArguments :: ulong where "sizeof_ThreadArguments = 4120"

subsection \<open>Work assignments (lines 96-101)\<close>

text \<open>
  The body of the launch loop that fills \<open>threadArguments[iter]\<close>, for
  \<open>numberOfCpuCores = count\<close>.  The program divides the constant \<open>ULONG_MAX\<close>; it is
  the parameter \<open>domain_max\<close> here, and \<open>main\<close> below passes \<open>ULONG_MAX\<close>.  The
  arithmetic is that of \<open>unsigned long\<close>: the \<open>ssize_t\<close> operand is converted to
  unsigned before the division.  \<open>snprintf\<close> cuts the name after \<open>FILENAME_MAX - 1\<close>
  characters.
\<close>

definition mkThreadArguments :: "string \<Rightarrow> ulong \<Rightarrow> ulong \<Rightarrow> ulong \<Rightarrow> ThreadArguments" where
  "mkThreadArguments cwd domain_max count iter =
     (let begin = (domain_max div count) * iter
      in \<lparr>threadNum = ucast (iter + 1),
          cpuCoreNum = ucast (iter + 1),
          beginCalculationsAt = begin,
          endCalculationsAt = begin + domain_max div count,
          outputFileName =
            take (FILENAME_MAX - 1)
              (cwd @ ''/PRIMES_THREAD_'' @ decimal (unat iter) @ ''.TXT'')\<rparr>)"

text \<open>
  The assignments that the launch loop constructs when it runs through all \<open>count\<close>
  iterations: one per index, in index order.
\<close>

definition partition_domain :: "string \<Rightarrow> ulong \<Rightarrow> ulong \<Rightarrow> ThreadArguments list" where
  "partition_domain cwd domain_max count =
     map (\<lambda>i. mkThreadArguments cwd domain_max count (of_nat i)) [0..<unat count]"

subsection \<open>The environment of the dispatcher\<close>

text \<open>
  Everything \<open>main\<close> receives from the operating system and the thread library: the
  results of \<open>sigaction\<close> and \<open>sysconf\<close>, whether the allocator grants a request, the
  working directory (\<open>get_current_dir_name\<close> is taken to return a string), and, for
  every loop index, the return codes of the five pthread calls of the launch step, the
  content of \<open>threads[iter]\<close> after \<open>pthread_create\<close> (the new handle on success;
  whatever the call leaves there on failure, \<open>0\<close> if it leaves the zeroed slot alone),
  and the return codes of \<open>pthread_cancel\<close> and \<open>pthread_join\<close> for a thread handle.
  The workers that \<open>pthread_create\<close> starts run on their own; what one of them does is
  the function \<open>PrimeNumberGenerator\<close> above.
\<close>

record main_env =
  sigaction_rc :: cint
  sysconf_NPROCESSORS_ONLN :: ulong
  heap_grants :: "ulong \<Rightarrow> ulong \<Rightarrow> bool"
  get_current_dir_name :: string
  pthread_attr_init_rc :: "ulong \<Rightarrow> cint"
  pthread_attr_setstacksize_rc :: "ulong \<Rightarrow> cint"
  pthread_attr_setaffinity_np_rc :: "ulong \<Rightarrow> cint"
  pthread_create_rc :: "ulong \<Rightarrow> cint"
  pthread_create_out :: "ulong \<Rightarrow> ulong"
  pthread_attr_destroy_rc :: "ulong \<Rightarrow> cint"
  pthread_cancel_rc :: "ulong \<Rightarrow> cint"
  pthread_join_rc :: "ulong \<Rightarrow> cint"

text \<open>
  \<open>calloc(nmemb, size)\<close> returns \<open>NULL\<close> when \<open>nmemb * size\<close> does not fit
  \<open>size_t\<close>, and otherwise when the allocator does not grant the request.
\<close>

definition calloc_succeeds :: "main_env \<Rightarrow> ulong \<Rightarrow> ulong \<Rightarrow> bool" where
  "calloc_succeeds env nmemb sz =
     (unat nmemb * unat sz < 2 ^ 64 \<and> heap_grants env nmemb sz)"

datatype message =
    CouldNotSetupSIGQUIT
  | CantEnumerateCores
  | MemoryAllocationError
  | ThreadCreationResult cint
  | ThreadCancellationError cint
  | ThreadJoinError cint

datatype event =
    PthreadCreate ulong
  | PthreadCancel ulong ulong
  | PthreadJoin ulong ulong
  | Diagnostic message

record main_state =
  threads :: "ulong list"
  threadArguments :: "ThreadArguments list"
  result :: cint
  trace :: "event list"

datatype outcome = Exit cint | OutOfBoundsAccess

subsection \<open>The cancellation loop (lines 113-121)\<close>

text \<open>
  \<open>while(--iter >= 0)\<close> with \<open>iter\<close> of type \<open>size_t\<close>.  \<open>threads\<close> has
  \<open>numberOfCpuCores\<close> elements; reading \<open>threads[iter]\<close> beyond them is undefined
  behaviour in C, and the model stops there with the trace so far (\<open>Inl\<close>).  A normal
  exit of the loop is \<open>Inr\<close>.
\<close>

function cancel_loop :: "main_env \<Rightarrow> ulong \<Rightarrow> ulong \<Rightarrow> main_state \<Rightarrow> event list + ulong \<times> main_state" where
  "cancel_loop env numberOfCpuCores iter s =
     (let iter' = iter - 1
      in if 0 \<le> iter'
         then (if iter' < numberOfCpuCores
               then (let r = pthread_cancel_rc env (threads s ! unat iter')
                     in cancel_loop env numberOfCpuCores iter'
                          (s\<lparr>result := r,
                             trace := trace s @ [PthreadCancel iter' (threads s ! unat iter')]
                               @ (if r \<noteq> 0 then [Diagnostic (ThreadCancellationError r)] else [])\<rparr>))
               else Inl (trace s))
         else Inr (iter', s))"
  by pat_completeness auto
termination
proof (relation "measure (\<lambda>(env, numberOfCpuCores, iter, s). unat iter)")
  show "wf (measure (\<lambda>(env :: main_env, numberOfCpuCores :: ulong, iter :: ulong, s :: main_state).
              unat iter))"
    by simp
next
  fix env :: main_env and numberOfCpuCores iter x :: ulong and s :: main_state and xa :: cint
  assume x: "x = iter - 1" and "x < numberOfCpuCores"
  then have "iter - 1 \<noteq> - 1"
    by (metis word_order.extremum_strict)
  then have "iter \<noteq> 0"
    by auto
  then have "unat (iter - 1) < unat iter"
    by (simp add: unat_minus_one unat_gt_0 [symmetric] word_neq_0_conv)
  with x show "((env, numberOfCpuCores, x,
                 s\<lparr>result := xa,
                    trace := trace s @ [PthreadCancel x (threads s ! unat x)]
                      @ (if xa \<noteq> 0 then [Diagnostic (ThreadCancellationError xa)] else [])\<rparr>),
                (env, numberOfCpuCores, iter, s))
               \<in> measure (\<lambda>(env, numberOfCpuCores, iter, s). unat iter)"
    by simp
qed

subsection \<open>The launch loop (lines 91-126)\<close>

text \<open>
  One iteration fills \<open>threadArguments[iter]\<close>, makes the five pthread calls (all of
  them, whatever the earlier ones returned: \<open>|=\<close> does not short-circuit) and tests
  the accumulated \<open>result\<close>.  On a nonzero \<open>result\<close> it prints the diagnostic and enters
  the cancellation loop; lines 123-124 (\<open>result = EXIT_FAILURE; break\<close>) follow a normal
  exit of that loop.  Both arrays are indexed below \<open>numberOfCpuCores\<close> here.
\<close>

definition launch_result :: "main_env \<Rightarrow> ulong \<Rightarrow> cint" where
  "launch_result env iter =
     pthread_attr_init_rc env iter
       OR pthread_attr_setstacksize_rc env iter
       OR pthread_attr_setaffinity_np_rc env iter
       OR pthread_create_rc env iter
       OR pthread_attr_destroy_rc env iter"

definition launch_step :: "main_env \<Rightarrow> ulong \<Rightarrow> ulong \<Rightarrow> main_state \<Rightarrow> main_state" where
  "launch_step env numberOfCpuCores iter s =
     s\<lparr>threadArguments := (threadArguments s)
          [unat iter := mkThreadArguments (get_current_dir_name env) ULONG_MAX numberOfCpuCores iter],
       threads := (threads s)[unat iter := pthread_create_out env iter],
       result := launch_result env iter,
       trace := trace s @ [PthreadCreate iter]\<rparr>"

function launch_loop :: "main_env \<Rightarrow> ulong \<Rightarrow> ulong \<Rightarrow> main_state \<Rightarrow> event list + main_state" where
  "launch_loop env numberOfCpuCores iter s =
     (if iter < numberOfCpuCores
      then (if launch_result env iter \<noteq> 0
            then (case cancel_loop env numberOfCpuCores iter
                         ((launch_step env numberOfCpuCores iter s)
                            \<lparr>trace := trace (launch_step env numberOfCpuCores iter s)
                               @ [Diagnostic (ThreadCreationResult (launch_result env iter))]\<rparr>) of
                    Inl tr \<Rightarrow> Inl tr
                  | Inr (iter', s') \<Rightarrow> Inr (s'\<lparr>result := EXIT_FAILURE\<rparr>))
            else launch_loop env numberOfCpuCores (iter + 1) (launch_step env numberOfCpuCores iter s))
      else Inr s)"
  by pat_completeness auto
termination
proof (relation "measure (\<lambda>(env, numberOfCpuCores, iter, s). unat numberOfCpuCores - unat iter)")
  show "wf (measure (\<lambda>(env :: main_env, numberOfCpuCores :: ulong, iter :: ulong, s :: main_state).
              unat numberOfCpuCores - unat iter))"
    by simp
next
  fix env :: main_env and numberOfCpuCores iter :: ulong and s :: main_state
  assume "iter < numberOfCpuCores"
  then have less: "unat iter < unat numberOfCpuCores"
    by (simp add: word_less_nat_alt)
  have "unat numberOfCpuCores < 2 ^ LENGTH(64)"
    by (rule unsigned_less)
  with less have "unat iter + unat (1 :: ulong) < 2 ^ LENGTH(64)"
    by (simp del: unsigned_less)
  then have "unat (iter + 1) = unat iter + 1"
    by (simp add: unat_add_lem [THEN iffD1])
  with less show "((env, numberOfCpuCores, iter + 1, launch_step env numberOfCpuCores iter s),
                   (env, numberOfCpuCores, iter, s))
                  \<in> measure (\<lambda>(env, numberOfCpuCores, iter, s). unat numberOfCpuCores - unat iter)"
    by simp
qed

subsection \<open>The join loop (lines 130-138)\<close>

function join_loop :: "main_env \<Rightarrow> ulong \<Rightarrow> ulong \<Rightarrow> main_state \<Rightarrow> main_state" where
  "join_loop env numberOfCpuCores iter s =
     (if iter < numberOfCpuCores \<and> threads s ! unat iter \<noteq> 0
      then (let r = pthread_join_rc env (threads s ! unat iter)
            in join_loop env numberOfCpuCores (iter + 1)
                 (s\<lparr>result := r,
                    trace := trace s @ [PthreadJoin iter (threads s ! unat iter)]
                      @ (if r \<noteq> 0 then [Diagnostic (ThreadJoinError r)] else [])\<rparr>))
      else s)"
  by pat_completeness auto
termination
proof (relation "measure (\<lambda>(env, numberOfCpuCores, iter, s). unat numberOfCpuCores - unat iter)")
  show "wf (measure (\<lambda>(env :: main_env, numberOfCpuCores :: ulong, iter :: ulong, s :: main_state).
              unat numberOfCpuCores - unat iter))"
    by simp
next
  fix env :: main_env and numberOfCpuCores iter :: ulong and s :: main_state and x :: cint
  assume "iter < numberOfCpuCores \<and> threads s ! unat iter \<noteq> 0"
  then have less: "unat iter < unat numberOfCpuCores"
    by (simp add: word_less_nat_alt)
  have "unat numberOfCpuCores < 2 ^ LENGTH(64)"
    by (rule unsigned_less)
  with less have "unat iter + unat (1 :: ulong) < 2 ^ LENGTH(64)"
    by (simp del: unsigned_less)
  then have "unat (iter + 1) = unat iter + 1"
    by (simp add: unat_add_lem [THEN iffD1])
  with less show "((env, numberOfCpuCores, iter + 1,
                    s\<lparr>result := x,
                      trace := trace s @ [PthreadJoin iter (threads s ! unat iter)]
                        @ (if x \<noteq> 0 then [Diagnostic (ThreadJoinError x)] else [])\<rparr>),
                   (env, numberOfCpuCores, iter, s))
                  \<in> measure (\<lambda>(env, numberOfCpuCores, iter, s). unat numberOfCpuCores - unat iter)"
    by simp
qed

subsection \<open>\<open>main\<close>\<close>

text \<open>
  \<open>calloc\<close> hands out zeroed memory: every thread handle starts as \<open>0\<close> and every
  \<open>ThreadArguments\<close> as all-zero fields.  \<open>err(EXIT_FAILURE, ...)\<close> prints its message
  and ends the process with that status.  The result of \<open>main\<close> is how the process ends
  and what the dispatcher did on the way.
\<close>

definition zeroed_ThreadArguments :: ThreadArguments where
  "zeroed_ThreadArguments =
     \<lparr>threadNum = 0, cpuCoreNum = 0, beginCalculationsAt = 0, endCalculationsAt = 0,
      outputFileName = []\<rparr>"

definition initial_state :: "ulong \<Rightarrow> main_state" where
  "initial_state numberOfCpuCores =
     \<lparr>threads = replicate (unat numberOfCpuCores) 0,
      threadArguments = replicate (unat numberOfCpuCores) zeroed_ThreadArguments,
      result = EXIT_SUCCESS,
      trace = []\<rparr>"

definition main :: "main_env \<Rightarrow> outcome \<times> event list" where
  "main env =
     (if sigaction_rc env = - 1
      then (Exit EXIT_FAILURE, [Diagnostic CouldNotSetupSIGQUIT])
      else (let numberOfCpuCores = sysconf_NPROCESSORS_ONLN env
            in if scast EINVAL = numberOfCpuCores
               then (Exit EXIT_FAILURE, [Diagnostic CantEnumerateCores])
               else if \<not> calloc_succeeds env numberOfCpuCores sizeof_pthread_t
                        \<or> \<not> calloc_succeeds env numberOfCpuCores sizeof_ThreadArguments
               then (Exit EXIT_FAILURE, [Diagnostic MemoryAllocationError])
               else (case launch_loop env numberOfCpuCores 0 (initial_state numberOfCpuCores) of
                       Inl tr \<Rightarrow> (OutOfBoundsAccess, tr)
                     | Inr s \<Rightarrow>
                         (let s' = (if EXIT_FAILURE \<noteq> result s
                                    then join_loop env numberOfCpuCores 0 s else s)
                          in (Exit (result s'), trace s')))))"

subsection \<open>A sample environment\<close>

text \<open>
  A machine with two execution units on which every call succeeds; the thread library
  hands out the handles 1000 and 1001.  Variations of it serve as concrete inputs below.
\<close>

definition two_units :: main_env where
  "two_units =
     \<lparr>sigaction_rc = 0,
      sysconf_NPROCESSORS_ONLN = 2,
      heap_grants = (\<lambda>nmemb sz. True),
      get_current_dir_name = ''/tmp'',
      pthread_attr_init_rc = (\<lambda>iter. 0),
      pthread_attr_setstacksize_rc = (\<lambda>iter. 0),
      pthread_attr_setaffinity_np_rc = (\<lambda>iter. 0),
      pthread_create_rc = (\<lambda>iter. 0),
      pthread_create_out = (\<lambda>iter. 1000 + iter),
      pthread_attr_destroy_rc = (\<lambda>iter. 0),
      pthread_cancel_rc = (\<lambda>handle. 0),
      pthread_join_rc = (\<lambda>handle. 0)\<rparr>"

section \<open>The cancellation flag (lines 31, 51, 147-150)\<close>

text \<open>
  \<open>handleQuitSignal\<close> stores \<open>1\<close> in the global \<open>receivedQuitSignal\<close>, whatever the
  signal number and whatever the global held.
\<close>

definition handleQuitSignal :: "cint \<Rightarrow> cint \<Rightarrow> cint" where
  "handleQuitSignal sig receivedQuitSignal = 1"

text \<open>
  The statements of the program that name the global: line 51 of \<open>main\<close> stores \<open>0\<close>,
  before the handler is installed (line 56) and before any worker exists; the handler
  stores \<open>1\<close>; the loop test of a worker (line 159) reads it.  After line 51 the life of
  the process is a sequence of handler runs and worker reads, in any order and number.
\<close>

datatype flag_event = HandlerRuns cint | WorkerReads

definition main_line_51 :: cint where
  "main_line_51 = 0"

fun flag_step :: "cint \<Rightarrow> flag_event \<Rightarrow> cint" where
  "flag_step receivedQuitSignal (HandlerRuns sig) = handleQuitSignal sig receivedQuitSignal"
| "flag_step receivedQuitSignal WorkerReads = receivedQuitSignal"

text \<open>The value of the flag after line 51 and after each further event.\<close>

fun flag_history :: "cint \<Rightarrow> flag_event list \<Rightarrow> cint list" where
  "flag_history v [] = [v]"
| "flag_history v (e # es) = v # flag_history (flag_step v e) es"

section \<open>Proof setup\<close>

text \<open>
  The loop equations unfold without end as rewrite rules; they are applied by hand.
\<close>

declare IsPrimeNumber_loop.simps [simp del]
declare decimal.simps [simp del]
declare PrimeNumberGenerator_loop.simps [simp del]
declare cancel_loop.simps [simp del]
declare launch_loop.simps [simp del]
declare join_loop.simps [simp del]

lemma word_succ_unat:
  fixes x m :: "'a::len word"
  assumes "x < m"
  shows "unat (x + 1) = unat x + 1"
proof -
  from assms have "unat x < unat m"
    by (simp add: word_less_nat_alt)
  moreover have "unat m < 2 ^ LENGTH('a)"
    by (rule unsigned_less)
  ultimately have "unat x + unat (1 :: 'a word) < 2 ^ LENGTH('a)"
    by (simp del: unsigned_less)
  then show ?thesis
    by (simp add: unat_add_lem [THEN iffD1])
qed

section \<open>Properties of the primality predicate\<close>

lemma word_succ_le_iff:
  fixes x y :: "'a::len word"
  assumes "x < m"
  shows "(x + 1 \<le> d) = (x \<le> d \<and> d \<noteq> x)"
  using assms inc_less_eq_iff interval_class.inc_less_eq_imp_less nless_le
  by blast

lemma IsPrimeNumber_loop_spec:
  "IsPrimeNumber_loop num denom =
     (if (\<exists>d. denom \<le> d \<and> d < num \<and> num mod d = 0) then 0 else 1)"
proof (induction num denom rule: IsPrimeNumber_loop.induct)
  case (1 num denom)
  show ?case
  proof (cases "denom < num")
    case False
    then have "\<not> (\<exists>d. denom \<le> d \<and> d < num \<and> num mod d = 0)"
      by auto
    with False show ?thesis
      by (subst IsPrimeNumber_loop.simps) simp
  next
    case lt: True
    show ?thesis
    proof (cases "num mod denom = 0")
      case True
      with lt have "\<exists>d. denom \<le> d \<and> d < num \<and> num mod d = 0"
        by (intro exI [of _ denom]) (simp del: mod_eq_0_iff_dvd)
      with lt True show ?thesis
        by (subst IsPrimeNumber_loop.simps) simp
    next
      case False
      have "(\<exists>d. denom \<le> d \<and> d < num \<and> num mod d = 0)
            = (\<exists>d. denom + 1 \<le> d \<and> d < num \<and> num mod d = 0)"
        using False lt word_succ_le_iff [OF lt] by metis
      with lt False "1.IH" show ?thesis
        by (subst IsPrimeNumber_loop.simps) simp
    qed
  qed
qed

lemma trial_division_nat:
  "(\<exists>d::ulong. 2 \<le> d \<and> d < num \<and> num mod d = 0)
   = (\<exists>denom::nat. 2 \<le> denom \<and> denom < unat num \<and> unat num mod denom = 0)"
proof
  assume "\<exists>d::ulong. 2 \<le> d \<and> d < num \<and> num mod d = 0"
  then obtain d :: ulong where d: "2 \<le> d" "d < num" "num mod d = 0"
    by (elim exE conjE)
  from d(3) have "unat (num mod d) = 0" by simp
  then have "unat num mod unat d = 0" by (simp only: unat_mod)
  moreover from d(1) have "2 \<le> unat d" by (simp add: word_le_nat_alt)
  moreover from d(2) have "unat d < unat num" by (simp add: word_less_nat_alt)
  ultimately show "\<exists>denom::nat. 2 \<le> denom \<and> denom < unat num \<and> unat num mod denom = 0"
    by (intro exI [of _ "unat d"] conjI)
next
  assume "\<exists>denom::nat. 2 \<le> denom \<and> denom < unat num \<and> unat num mod denom = 0"
  then obtain n :: nat where n: "2 \<le> n" "n < unat num" "unat num mod n = 0"
    by (elim exE conjE)
  from n(2) have un: "unat (of_nat n :: ulong) = n"
    by (intro le_unat_uoi [of n num]) simp
  have "unat (num mod of_nat n) = 0"
    using n(3) un by (simp only: unat_mod)
  then have "num mod of_nat n = 0" by (simp only: unat_eq_0)
  moreover from n(1) un have "2 \<le> (of_nat n :: ulong)" by (simp only: word_le_nat_alt) simp
  moreover from n(2) un have "(of_nat n :: ulong) < num" by (simp add: word_less_nat_alt)
  ultimately show "\<exists>d::ulong. 2 \<le> d \<and> d < num \<and> num mod d = 0"
    by (intro exI [of _ "of_nat n"] conjI)
qed

text \<open>
  Claim C3.  For every unsigned number \<open>num\<close>, \<open>IsPrimeNumber num\<close> returns false
  (\<open>0\<close>) if some integer \<open>denom\<close> with \<open>2 \<le> denom < num\<close> divides \<open>num\<close> exactly,
  and true (\<open>1\<close>) otherwise.  For \<open>num = 0\<close> and \<open>num = 1\<close> there is no such
  \<open>denom\<close>, and the function returns true.
\<close>

theorem IsPrimeNumber_trial_division:
  "IsPrimeNumber num =
     (if (\<exists>denom::nat. 2 \<le> denom \<and> denom < unat num \<and> unat num mod denom = 0) then 0 else 1)
   \<and> IsPrimeNumber 0 = 1 \<and> IsPrimeNumber 1 = 1"
proof (intro conjI)
  show "IsPrimeNumber num =
     (if (\<exists>denom::nat. 2 \<le> denom \<and> denom < unat num \<and> unat num mod denom = 0) then 0 else 1)"
    unfolding IsPrimeNumber_def IsPrimeNumber_loop_spec trial_division_nat ..
  show "IsPrimeNumber 0 = 1"
    by (simp add: IsPrimeNumber_def IsPrimeNumber_loop.simps)
  show "IsPrimeNumber 1 = 1"
    by (simp add: IsPrimeNumber_def IsPrimeNumber_loop.simps)
qed

theorem IsPrimeNumber_trial_division_witness:
  "IsPrimeNumber 9 = 0 \<and> (\<exists>denom::nat. 2 \<le> denom \<and> denom < 9 \<and> 9 mod denom = 0)
   \<and> IsPrimeNumber 7 = 1 \<and> \<not> (\<exists>denom::nat. 2 \<le> denom \<and> denom < 7 \<and> 7 mod denom = 0)"
proof -
  let ?P = "\<lambda>n::nat. \<exists>denom::nat. 2 \<le> denom \<and> denom < n \<and> n mod denom = 0"
  have nine: "IsPrimeNumber 9 = 0" and seven: "IsPrimeNumber 7 = 1"
    by (simp_all add: IsPrimeNumber_def IsPrimeNumber_loop.simps)
  have u: "unat (9 :: ulong) = 9" "unat (7 :: ulong) = 7"
    by simp_all
  have eq9: "IsPrimeNumber 9 = (if ?P 9 then 0 else 1)"
    using IsPrimeNumber_trial_division [of 9] unfolding u by (rule conjunct1)
  have eq7: "IsPrimeNumber 7 = (if ?P 7 then 0 else 1)"
    using IsPrimeNumber_trial_division [of 7] unfolding u by (rule conjunct1)
  have "?P 9"
  proof (rule ccontr)
    assume "\<not> ?P 9"
    with eq9 have "IsPrimeNumber 9 = 1" by (simp only: if_False)
    with nine show False by simp
  qed
  moreover have "\<not> ?P 7"
  proof
    assume "?P 7"
    with eq7 have "IsPrimeNumber 7 = 0" by (simp only: if_True)
    with seven show False by simp
  qed
  ultimately show ?thesis
    using nine seven by blast
qed


section \<open>Properties of the decimal output\<close>

text \<open>
  The digits printed for a number denote that number, and contain no newline: the
  lines of a destination can be told apart and read back.
\<close>

lemma digit_value_digit_char: "d < 10 \<Longrightarrow> digit_value (digit_char d) = d"
proof -
  assume "d < 10"
  then consider "d = 0" | "d = 1" | "d = 2" | "d = 3" | "d = 4" | "d = 5" | "d = 6" | "d = 7"
    | "d = 8" | "d = 9"
    by atomize_elim arith
  then show ?thesis
    by cases (simp_all add: digit_value_def digit_char_def)
qed

lemma digit_char_not_newline: "d < 10 \<Longrightarrow> digit_char d \<noteq> newline"
proof -
  assume "d < 10"
  then consider "d = 0" | "d = 1" | "d = 2" | "d = 3" | "d = 4" | "d = 5" | "d = 6" | "d = 7"
    | "d = 8" | "d = 9"
    by atomize_elim arith
  then show ?thesis
    by cases (simp_all add: newline_def digit_char_def)
qed

lemma decimal_value_snoc: "decimal_value (s @ [c]) = 10 * decimal_value s + digit_value c"
  by (simp add: decimal_value_def)

lemma decimal_value_decimal: "decimal_value (decimal n) = n"
proof (induction n rule: decimal.induct)
  case (1 n)
  show ?case
  proof (cases "n < 10")
    case True
    then show ?thesis
      by (subst decimal.simps) (simp add: decimal_value_def digit_value_digit_char)
  next
    case False
    with "1.IH" have "decimal_value (decimal (n div 10)) = n div 10"
      by simp
    with False show ?thesis
      by (subst decimal.simps) (simp add: decimal_value_snoc digit_value_digit_char)
  qed
qed

lemma newline_notin_decimal: "newline \<notin> set (decimal n)"
proof (induction n rule: decimal.induct)
  case (1 n)
  show ?case
  proof (cases "n < 10")
    case True
    then show ?thesis
      using digit_char_not_newline [of n] by (subst decimal.simps) auto
  next
    case False
    with "1.IH" have "newline \<notin> set (decimal (n div 10))"
      by simp
    with False show ?thesis
      using digit_char_not_newline [of "n mod 10"] by (subst decimal.simps) auto
  qed
qed

text \<open>
  The digits printed for a number form a numeral as \<open>read_numbers\<close> expects it, and a
  text made of such lines reads back as the numbers printed.
\<close>

lemma digit_cases:
  assumes "d < (10 :: nat)"
  obtains "d = 0" | "d = 1" | "d = 2" | "d = 3" | "d = 4" | "d = 5" | "d = 6" | "d = 7"
    | "d = 8" | "d = 9"
  using assms by atomize_elim arith

lemma is_digit_digit_char: "d < 10 \<Longrightarrow> is_digit (digit_char d)"
  by (erule digit_cases) (simp_all add: is_digit_def digit_char_def)

lemma digit_char_not_zero: "0 < d \<Longrightarrow> d < 10 \<Longrightarrow> digit_char d \<noteq> CHR ''0''"
  by (erule digit_cases) (simp_all add: digit_char_def)

lemma digit_char_not_LF: "d < 10 \<Longrightarrow> digit_char d \<noteq> CHR 0x0A"
  by (erule digit_cases) (simp_all add: digit_char_def)

lemma decimal_nonempty: "decimal n \<noteq> []"
  by (subst decimal.simps) simp

lemma decimal_digits: "list_all is_digit (decimal n)"
proof (induction n rule: decimal.induct)
  case (1 n)
  show ?case
  proof (cases "n < 10")
    case True
    then show ?thesis
      by (subst decimal.simps) (simp add: is_digit_digit_char)
  next
    case False
    with "1.IH" have "list_all is_digit (decimal (n div 10))"
      by simp
    with False show ?thesis
      by (subst decimal.simps) (simp add: is_digit_digit_char)
  qed
qed

lemma LF_notin_decimal: "CHR 0x0A \<notin> set (decimal n)"
proof (induction n rule: decimal.induct)
  case (1 n)
  show ?case
  proof (cases "n < 10")
    case True
    then show ?thesis
      using digit_char_not_LF [of n] by (subst decimal.simps) auto
  next
    case False
    with "1.IH" have "CHR 0x0A \<notin> set (decimal (n div 10))"
      by simp
    with False show ?thesis
      using digit_char_not_LF [of "n mod 10"] by (subst decimal.simps) auto
  qed
qed

lemma decimal_hd: "0 < n \<Longrightarrow> hd (decimal n) \<noteq> CHR ''0''"
proof (induction n rule: decimal.induct)
  case (1 n)
  show ?case
  proof (cases "n < 10")
    case True
    with "1.prems" show ?thesis
      by (subst decimal.simps) (simp add: digit_char_not_zero)
  next
    case False
    then have "0 < n div 10"
      by simp
    with "1.IH" False have "hd (decimal (n div 10)) \<noteq> CHR ''0''"
      by simp
    with False show ?thesis
      by (subst decimal.simps) (simp add: decimal_nonempty)
  qed
qed

lemma canonical_decimal: "canonical_numeral (decimal n)"
proof (cases "n < 10")
  case True
  then have "decimal n = [digit_char n]"
    by (subst decimal.simps) simp
  with True show ?thesis
    by (simp add: canonical_numeral_def is_digit_digit_char)
next
  case False
  then have "hd (decimal n) \<noteq> CHR ''0''"
    by (intro decimal_hd) simp
  then show ?thesis
    by (simp add: canonical_numeral_def decimal_nonempty decimal_digits)
qed

lemma read_numbers_line:
  assumes "CHR 0x0A \<notin> set s"
  shows "read_numbers cur (s @ CHR 0x0A # rest)
         = (if canonical_numeral (cur @ s)
            then map_option ((#) (decimal_value (cur @ s))) (read_numbers [] rest)
            else None)"
  using assms
proof (induction s arbitrary: cur)
  case Nil
  then show ?case
    by simp
next
  case (Cons a s)
  then have a: "a \<noteq> CHR 0x0A" and s: "CHR 0x0A \<notin> set s"
    by auto
  from a have "read_numbers cur ((a # s) @ CHR 0x0A # rest)
               = read_numbers (cur @ [a]) (s @ CHR 0x0A # rest)"
    by simp
  also have "\<dots> = (if canonical_numeral ((cur @ [a]) @ s)
                     then map_option ((#) (decimal_value ((cur @ [a]) @ s))) (read_numbers [] rest)
                     else None)"
    by (rule Cons.IH [OF s])
  finally show ?case
    by simp
qed

lemma read_numbers_written: "read_numbers [] (written nums) = Some (map unat nums)"
proof (induction nums)
  case Nil
  then show ?case
    by (simp add: written_def)
next
  case (Cons num nums)
  have "written (num # nums) = decimal (unat num) @ CHR 0x0A # written nums"
    by (simp add: written_def prime_line_def newline_def)
  then show ?case
    using read_numbers_line [OF LF_notin_decimal, of "[]" "unat num" "written nums"] Cons.IH
    by (simp add: canonical_decimal decimal_value_decimal)
qed

section \<open>Properties of the worker\<close>

lemma candidates_Nil: "\<not> num < e \<Longrightarrow> candidates num e = []"
  by (simp add: candidates_def word_less_nat_alt)

lemma candidates_Cons:
  assumes "num < e"
  shows "candidates num e = num # candidates (num + 1) e"
proof -
  from assms have less: "unat num < unat e"
    by (simp add: word_less_nat_alt)
  have "unat (num + 1) = Suc (unat num)"
    using word_succ_unat [OF assms] by simp
  with less show ?thesis
    by (simp add: candidates_def upt_conv_Cons)
qed

lemma written_Cons: "written (num # nums) = prime_line num @ written nums"
  by (simp add: written_def)

lemma PrimeNumberGenerator_loop_takes:
  assumes "\<forall>j. k \<le> j \<and> j < k + m \<longrightarrow> quit j = 0"
    and "quit (k + m) \<noteq> 0 \<or> unat e - unat num \<le> m"
  shows "PrimeNumberGenerator_loop quit e k num out
         = out @ written (filter (\<lambda>n. IsPrimeNumber n \<noteq> 0) (take m (candidates num e)))"
  using assms
proof (induction m arbitrary: k num out)
  case 0
  then have "\<not> (num < e \<and> quit k = 0)"
    by (auto simp: word_less_nat_alt)
  then have "PrimeNumberGenerator_loop quit e k num out = out"
    by (subst PrimeNumberGenerator_loop.simps) (simp only: if_False)
  then show ?case
    by (simp add: written_def)
next
  case (Suc m)
  show ?case
  proof (cases "num < e")
    case False
    then have "PrimeNumberGenerator_loop quit e k num out = out"
      by (subst PrimeNumberGenerator_loop.simps) simp
    with False show ?thesis
      by (simp add: candidates_Nil written_def)
  next
    case True
    from Suc.prems(1) have q: "quit k = 0"
      by simp
    have suc: "unat (num + 1) = Suc (unat num)"
      using word_succ_unat [OF True] by simp
    have a: "\<forall>j. Suc k \<le> j \<and> j < Suc k + m \<longrightarrow> quit j = 0"
      using Suc.prems(1) by simp
    have b: "quit (Suc k + m) \<noteq> 0 \<or> unat e - unat (num + 1) \<le> m"
      using Suc.prems(2) suc by auto
    note IH = Suc.IH [OF a b]
    from True q show ?thesis
      by (subst PrimeNumberGenerator_loop.simps)
         (simp add: IH candidates_Cons written_Cons)
  qed
qed

lemma set_candidates: "set (candidates b e) = {num. b \<le> num \<and> num < e}"
proof (intro set_eqI iffI)
  fix x
  assume "x \<in> set (candidates b e)"
  then obtain n where n: "unat b \<le> n" "n < unat e" and x: "x = of_nat n"
    by (auto simp: candidates_def)
  from n(2) have "unat (of_nat n :: ulong) = n"
    by (intro le_unat_uoi [of n e]) simp
  with n x show "x \<in> {num. b \<le> num \<and> num < e}"
    by (simp add: word_le_nat_alt word_less_nat_alt)
next
  fix x
  assume "x \<in> {num. b \<le> num \<and> num < e}"
  then have "unat b \<le> unat x" "unat x < unat e"
    by (simp_all add: word_le_nat_alt word_less_nat_alt)
  then have "unat x \<in> set [unat b..<unat e]"
    by simp
  then have "of_nat (unat x) \<in> set (candidates b e)"
    unfolding candidates_def set_map by (rule imageI)
  then show "x \<in> set (candidates b e)"
    by simp
qed

lemma sorted_candidates: "sorted_wrt (<) (candidates b e)"
proof -
  have "sorted_wrt (\<lambda>i j. (of_nat i :: ulong) < of_nat j) [unat b..<unat e]"
  proof (rule sorted_wrt_mono_rel [where P = "(<)"])
    fix i j :: nat
    assume i: "i \<in> set [unat b..<unat e]" and j: "j \<in> set [unat b..<unat e]" and "i < j"
    from i have "unat (of_nat i :: ulong) = i"
      by (intro le_unat_uoi [of i e]) simp
    moreover from j have "unat (of_nat j :: ulong) = j"
      by (intro le_unat_uoi [of j e]) simp
    ultimately show "(of_nat i :: ulong) < of_nat j"
      using \<open>i < j\<close> by (simp add: word_less_nat_alt)
  next
    show "sorted_wrt (<) [unat b..<unat e]"
      by (rule sorted_wrt_upt)
  qed
  then show ?thesis
    by (simp add: candidates_def sorted_wrt_map)
qed

lemma set_primes_in:
  "set (primes_in b e) = {num. b \<le> num \<and> num < e \<and> IsPrimeNumber num \<noteq> 0}"
  by (auto simp: primes_in_def set_candidates)

lemma sorted_primes_in: "sorted_wrt (<) (primes_in b e)"
  unfolding primes_in_def by (rule sorted_wrt_filter) (rule sorted_candidates)

lemma primes_in_10_20: "primes_in 10 20 = [11, 13, 17, 19]"
  by (simp add: primes_in_def candidates_Cons candidates_Nil IsPrimeNumber_def
        IsPrimeNumber_loop.simps)

lemma written_11_13_17_19:
  "written [11, 13, 17, 19]
   = ''11'' @ [newline] @ ''13'' @ [newline] @ ''17'' @ [newline] @ ''19'' @ [newline]"
  by (simp add: written_def prime_line_def decimal.simps digit_char_def)

lemma loop_never_cancelled:
  assumes "\<forall>k. quit k = 0"
  shows "PrimeNumberGenerator_loop quit e 0 b [] = written (primes_in b e)"
proof -
  have "PrimeNumberGenerator_loop quit e 0 b []
        = [] @ written (filter (\<lambda>n. IsPrimeNumber n \<noteq> 0)
                  (take (unat e - unat b) (candidates b e)))"
    using assms by (intro PrimeNumberGenerator_loop_takes) simp_all
  moreover have "length (candidates b e) = unat e - unat b"
    by (simp add: candidates_def)
  ultimately show ?thesis
    by (simp add: primes_in_def)
qed

lemma loop_cancelled_at:
  assumes "quit k \<noteq> 0" and "\<forall>j<k. quit j = 0"
  shows "PrimeNumberGenerator_loop quit e 0 b []
         = written (filter (\<lambda>n. IsPrimeNumber n \<noteq> 0) (take k (candidates b e)))"
proof -
  have "PrimeNumberGenerator_loop quit e 0 b []
        = [] @ written (filter (\<lambda>n. IsPrimeNumber n \<noteq> 0) (take k (candidates b e)))"
    using assms by (intro PrimeNumberGenerator_loop_takes) simp_all
  then show ?thesis
    by simp
qed

lemma sorted_primes_in_unat: "sorted_wrt (<) (map unat (primes_in b e))"
proof -
  have "(\<lambda>x y :: ulong. unat x < unat y) = (<)"
    by (intro ext) (simp add: word_less_nat_alt)
  then show ?thesis
    using sorted_primes_in [of b e] by (simp add: sorted_wrt_map)
qed

lemma written_11_13_17_19_text:
  "written [11, 13, 17, 19]
   = ''11'' @ [CHR 0x0A] @ ''13'' @ [CHR 0x0A] @ ''17'' @ [CHR 0x0A] @ ''19'' @ [CHR 0x0A]"
  by (simp add: written_11_13_17_19 newline_def)

text \<open>
  Claim C4.  A worker whose destination opens and whose reads of the cancellation flag
  all return \<open>0\<close> leaves in its destination a text that reads, line by line, as
  decimal numerals, one per line: exactly the numbers of its range that the primality
  predicate accepts, in strictly ascending order.  It prints no diagnostic and returns
  \<open>NULL\<close>.  For the range from 10 to 20 the numbers are 11, 13, 17, 19 and the text is
  these four numerals, each followed by a newline.
\<close>

theorem worker_writes_primes_of_range:
  assumes "fopen_succeeds env (outputFileName threadArgs)"
    and "\<forall>k. receivedQuitSignal_read env k = 0"
  shows "(\<exists>content.
            PrimeNumberGenerator env threadArgs w
              = (0, w\<lparr>files := (files w)(outputFileName threadArgs \<mapsto> content)\<rparr>)
            \<and> read_numbers [] content
              = Some (map unat (primes_in (beginCalculationsAt threadArgs)
                                          (endCalculationsAt threadArgs))))
         \<and> set (primes_in (beginCalculationsAt threadArgs) (endCalculationsAt threadArgs))
           = {num. beginCalculationsAt threadArgs \<le> num \<and> num < endCalculationsAt threadArgs
                    \<and> IsPrimeNumber num \<noteq> 0}
         \<and> sorted_wrt (<) (primes_in (beginCalculationsAt threadArgs) (endCalculationsAt threadArgs))
         \<and> sorted_wrt (<)
              (map unat (primes_in (beginCalculationsAt threadArgs) (endCalculationsAt threadArgs)))
         \<and> (beginCalculationsAt threadArgs = 10 \<longrightarrow> endCalculationsAt threadArgs = 20 \<longrightarrow>
              primes_in (beginCalculationsAt threadArgs) (endCalculationsAt threadArgs)
                = [11, 13, 17, 19]
              \<and> files (snd (PrimeNumberGenerator env threadArgs w)) (outputFileName threadArgs)
                = Some (''11'' @ [CHR 0x0A] @ ''13'' @ [CHR 0x0A] @ ''17'' @ [CHR 0x0A]
                        @ ''19'' @ [CHR 0x0A]))"
proof -
  let ?ps = "primes_in (beginCalculationsAt threadArgs) (endCalculationsAt threadArgs)"
  have run: "PrimeNumberGenerator env threadArgs w
         = (0, w\<lparr>files := (files w)(outputFileName threadArgs \<mapsto> written ?ps)\<rparr>)"
    using assms by (simp add: PrimeNumberGenerator_def loop_never_cancelled)
  have "read_numbers [] (written ?ps) = Some (map unat ?ps)"
    by (rule read_numbers_written)
  with run have content: "\<exists>content.
            PrimeNumberGenerator env threadArgs w
              = (0, w\<lparr>files := (files w)(outputFileName threadArgs \<mapsto> content)\<rparr>)
            \<and> read_numbers [] content = Some (map unat ?ps)"
    by (intro exI [of _ "written ?ps"] conjI)
  have "beginCalculationsAt threadArgs = 10 \<longrightarrow> endCalculationsAt threadArgs = 20 \<longrightarrow>
              ?ps = [11, 13, 17, 19]
              \<and> files (snd (PrimeNumberGenerator env threadArgs w)) (outputFileName threadArgs)
                = Some (''11'' @ [CHR 0x0A] @ ''13'' @ [CHR 0x0A] @ ''17'' @ [CHR 0x0A]
                        @ ''19'' @ [CHR 0x0A])"
  proof (intro impI)
    assume "beginCalculationsAt threadArgs = 10" and "endCalculationsAt threadArgs = 20"
    then have "?ps = [11, 13, 17, 19]"
      by (simp only: primes_in_10_20)
    then show "?ps = [11, 13, 17, 19]
              \<and> files (snd (PrimeNumberGenerator env threadArgs w)) (outputFileName threadArgs)
                = Some (''11'' @ [CHR 0x0A] @ ''13'' @ [CHR 0x0A] @ ''17'' @ [CHR 0x0A]
                        @ ''19'' @ [CHR 0x0A])"
      by (simp add: run written_11_13_17_19_text)
  qed
  with content set_primes_in [of "beginCalculationsAt threadArgs" "endCalculationsAt threadArgs"]
    sorted_primes_in [of "beginCalculationsAt threadArgs" "endCalculationsAt threadArgs"]
    sorted_primes_in_unat [of "beginCalculationsAt threadArgs" "endCalculationsAt threadArgs"]
  show ?thesis
    by (intro conjI)
qed

theorem worker_writes_primes_of_range_witness:
  "files (snd (PrimeNumberGenerator
                 \<lparr>fopen_succeeds = (\<lambda>name. True), receivedQuitSignal_read = (\<lambda>k. 0)\<rparr>
                 \<lparr>threadNum = 1, cpuCoreNum = 1, beginCalculationsAt = 10,
                  endCalculationsAt = 20, outputFileName = ''PRIMES_THREAD_0.TXT''\<rparr>
                 \<lparr>files = Map.empty, stderr = []\<rparr>)) ''PRIMES_THREAD_0.TXT''
   = Some (''11'' @ [CHR 0x0A] @ ''13'' @ [CHR 0x0A] @ ''17'' @ [CHR 0x0A] @ ''19'' @ [CHR 0x0A])
   \<and> read_numbers []
        (''11'' @ [CHR 0x0A] @ ''13'' @ [CHR 0x0A] @ ''17'' @ [CHR 0x0A] @ ''19'' @ [CHR 0x0A])
     = Some [11, 13, 17, 19]
   \<and> stderr (snd (PrimeNumberGenerator
                 \<lparr>fopen_succeeds = (\<lambda>name. True), receivedQuitSignal_read = (\<lambda>k. 0)\<rparr>
                 \<lparr>threadNum = 1, cpuCoreNum = 1, beginCalculationsAt = 10,
                  endCalculationsAt = 20, outputFileName = ''PRIMES_THREAD_0.TXT''\<rparr>
                 \<lparr>files = Map.empty, stderr = []\<rparr>)) = []"
proof -
  let ?env = "\<lparr>fopen_succeeds = (\<lambda>name. True), receivedQuitSignal_read = (\<lambda>k. (0 :: cint))\<rparr>"
  let ?a = "\<lparr>threadNum = 1, cpuCoreNum = 1, beginCalculationsAt = 10,
             endCalculationsAt = 20, outputFileName = ''PRIMES_THREAD_0.TXT''\<rparr>"
  let ?w = "\<lparr>files = Map.empty, stderr = []\<rparr>"
  have h1: "fopen_succeeds ?env (outputFileName ?a)"
    by simp
  have h2: "\<forall>k. receivedQuitSignal_read ?env k = 0"
    by simp
  note inst = worker_writes_primes_of_range [OF h1 h2, of ?w]
  have content_eq: "files (snd (PrimeNumberGenerator ?env ?a ?w)) ''PRIMES_THREAD_0.TXT''
     = Some (''11'' @ [CHR 0x0A] @ ''13'' @ [CHR 0x0A] @ ''17'' @ [CHR 0x0A] @ ''19'' @ [CHR 0x0A])"
    using inst by simp
  obtain content where run: "PrimeNumberGenerator ?env ?a ?w
              = (0, ?w\<lparr>files := (files ?w)(outputFileName ?a \<mapsto> content)\<rparr>)"
    and rd: "read_numbers [] content
              = Some (map unat (primes_in (beginCalculationsAt ?a) (endCalculationsAt ?a)))"
    using inst by (elim conjE exE)
  from run content_eq have "content
     = ''11'' @ [CHR 0x0A] @ ''13'' @ [CHR 0x0A] @ ''17'' @ [CHR 0x0A] @ ''19'' @ [CHR 0x0A]"
    by simp
  with rd have "read_numbers []
        (''11'' @ [CHR 0x0A] @ ''13'' @ [CHR 0x0A] @ ''17'' @ [CHR 0x0A] @ ''19'' @ [CHR 0x0A])
     = Some [11, 13, 17, 19]"
    by (simp add: primes_in_10_20)
  moreover from run have "stderr (snd (PrimeNumberGenerator ?env ?a ?w)) = []"
    by simp
  ultimately show ?thesis
    using content_eq by (intro conjI)
qed

text \<open>
  Claim C5.  The flag is read before each candidate is processed.  If the read before
  the candidate of position \<open>k\<close> is the first that finds the flag set, the destination
  holds the accepted numbers among the first \<open>k\<close> candidates and nothing else, whatever
  the flag reads later; no diagnostic is printed and \<open>NULL\<close> is returned.  With the
  flag set at the first read (\<open>k = 0\<close>) the destination is empty.
\<close>

theorem worker_stops_at_cancellation:
  assumes "fopen_succeeds env (outputFileName threadArgs)"
    and "receivedQuitSignal_read env k \<noteq> 0"
    and "\<forall>j<k. receivedQuitSignal_read env j = 0"
  shows "PrimeNumberGenerator env threadArgs w
         = (0, w\<lparr>files := (files w)(outputFileName threadArgs \<mapsto>
                   written (filter (\<lambda>num. IsPrimeNumber num \<noteq> 0)
                     (take k (candidates (beginCalculationsAt threadArgs)
                                         (endCalculationsAt threadArgs)))))\<rparr>)
         \<and> (k = 0 \<longrightarrow> PrimeNumberGenerator env threadArgs w
                = (0, w\<lparr>files := (files w)(outputFileName threadArgs \<mapsto> [])\<rparr>))"
proof -
  have run: "PrimeNumberGenerator env threadArgs w
         = (0, w\<lparr>files := (files w)(outputFileName threadArgs \<mapsto>
                   written (filter (\<lambda>num. IsPrimeNumber num \<noteq> 0)
                     (take k (candidates (beginCalculationsAt threadArgs)
                                         (endCalculationsAt threadArgs)))))\<rparr>)"
    using assms(1) loop_cancelled_at [OF assms(2,3)]
    by (simp add: PrimeNumberGenerator_def)
  moreover have "k = 0 \<longrightarrow> PrimeNumberGenerator env threadArgs w
                = (0, w\<lparr>files := (files w)(outputFileName threadArgs \<mapsto> [])\<rparr>)"
    by (simp add: run written_def)
  ultimately show ?thesis
    by (intro conjI)
qed

theorem worker_stops_at_cancellation_witness:
  "PrimeNumberGenerator
     \<lparr>fopen_succeeds = (\<lambda>name. True), receivedQuitSignal_read = (\<lambda>k. if k < 3 then 0 else 1)\<rparr>
     \<lparr>threadNum = 1, cpuCoreNum = 1, beginCalculationsAt = 10,
      endCalculationsAt = 20, outputFileName = ''PRIMES_THREAD_0.TXT''\<rparr>
     \<lparr>files = Map.empty, stderr = []\<rparr>
   = (0, \<lparr>files = [''PRIMES_THREAD_0.TXT'' \<mapsto> ''11'' @ [newline]], stderr = []\<rparr>)
   \<and> PrimeNumberGenerator
     \<lparr>fopen_succeeds = (\<lambda>name. True), receivedQuitSignal_read = (\<lambda>k. 1)\<rparr>
     \<lparr>threadNum = 1, cpuCoreNum = 1, beginCalculationsAt = 10,
      endCalculationsAt = 20, outputFileName = ''PRIMES_THREAD_0.TXT''\<rparr>
     \<lparr>files = Map.empty, stderr = []\<rparr>
   = (0, \<lparr>files = [''PRIMES_THREAD_0.TXT'' \<mapsto> []], stderr = []\<rparr>)"
proof -
  let ?args = "\<lparr>threadNum = 1, cpuCoreNum = 1, beginCalculationsAt = 10,
      endCalculationsAt = 20, outputFileName = ''PRIMES_THREAD_0.TXT''\<rparr>"
  let ?w = "\<lparr>files = Map.empty, stderr = []\<rparr>"
  let ?late = "\<lparr>fopen_succeeds = (\<lambda>name. True),
                receivedQuitSignal_read = (\<lambda>k. if k < 3 then 0 else (1 :: cint))\<rparr>"
  let ?early = "\<lparr>fopen_succeeds = (\<lambda>name. True), receivedQuitSignal_read = (\<lambda>k. (1 :: cint))\<rparr>"
  have "take 3 (candidates 10 20) = [10, 11, 12]"
    by (simp add: candidates_Cons)
  then have three: "written (filter (\<lambda>num. IsPrimeNumber num \<noteq> 0) (take 3 (candidates 10 20)))
                    = ''11'' @ [newline]"
    by (simp add: IsPrimeNumber_def IsPrimeNumber_loop.simps written_def prime_line_def
          decimal.simps digit_char_def)
  have "PrimeNumberGenerator ?late ?args ?w
        = (0, \<lparr>files = [''PRIMES_THREAD_0.TXT'' \<mapsto> ''11'' @ [newline]], stderr = []\<rparr>)"
    using worker_stops_at_cancellation [of ?late ?args 3 ?w] three by simp
  moreover have "PrimeNumberGenerator ?early ?args ?w
        = (0, \<lparr>files = [''PRIMES_THREAD_0.TXT'' \<mapsto> []], stderr = []\<rparr>)"
    using worker_stops_at_cancellation [of ?early ?args 0 ?w] by (simp add: written_def)
  ultimately show ?thesis
    by (intro conjI)
qed

text \<open>
  Claim C8.  A worker whose destination does not open changes no file, appends to the
  diagnostic stream one line that names the destination and the number of the thread,
  and returns at once.  A sibling whose destination opens and whose reads of the flag
  return \<open>0\<close> leaves in its destination the accepted numbers of its own range, one
  decimal numeral per line, whether it runs before or after the failed worker.
\<close>

theorem worker_without_destination:
  assumes "\<not> fopen_succeeds env (outputFileName threadArgs)"
  shows "(\<exists>digits. canonical_numeral digits
            \<and> decimal_value digits = unat (threadNum threadArgs)
            \<and> PrimeNumberGenerator env threadArgs w
              = (0, w\<lparr>stderr := stderr w
                     @ [''Could not open '' @ outputFileName threadArgs @ '' on thread ''
                          @ digits @ ''.'' @ [CHR 0x0A]]\<rparr>))
         \<and> files (snd (PrimeNumberGenerator env threadArgs w)) = files w
         \<and> (\<forall>env' sibling.
               fopen_succeeds env' (outputFileName sibling)
               \<and> (\<forall>k. receivedQuitSignal_read env' k = 0) \<longrightarrow>
               (\<exists>content.
                  files (snd (PrimeNumberGenerator env' sibling
                                (snd (PrimeNumberGenerator env threadArgs w))))
                    (outputFileName sibling) = Some content
                  \<and> read_numbers [] content
                    = Some (map unat (primes_in (beginCalculationsAt sibling)
                                                (endCalculationsAt sibling))))
               \<and> (\<exists>content.
                  files (snd (PrimeNumberGenerator env threadArgs
                                (snd (PrimeNumberGenerator env' sibling w))))
                    (outputFileName sibling) = Some content
                  \<and> read_numbers [] content
                    = Some (map unat (primes_in (beginCalculationsAt sibling)
                                                (endCalculationsAt sibling)))))"
proof -
  have fail: "PrimeNumberGenerator env threadArgs w'
         = (0, w'\<lparr>stderr := stderr w'
                @ [''Could not open '' @ outputFileName threadArgs @ '' on thread ''
                     @ decimal (unat (threadNum threadArgs)) @ ''.'' @ [CHR 0x0A]]\<rparr>)" for w'
    using assms by (simp add: PrimeNumberGenerator_def could_not_open_def newline_def)
  have ok: "\<exists>content.
              files (snd (PrimeNumberGenerator env' sibling w')) (outputFileName sibling)
                = Some content
              \<and> read_numbers [] content
                = Some (map unat (primes_in (beginCalculationsAt sibling)
                                            (endCalculationsAt sibling)))"
    if "fopen_succeeds env' (outputFileName sibling)" "\<forall>k. receivedQuitSignal_read env' k = 0"
    for env' sibling w'
    using that
    by (intro exI [of _ "written (primes_in (beginCalculationsAt sibling)
                                            (endCalculationsAt sibling))"])
       (simp add: PrimeNumberGenerator_def loop_never_cancelled read_numbers_written)
  show ?thesis
  proof (intro conjI allI impI)
    show "\<exists>digits. canonical_numeral digits
            \<and> decimal_value digits = unat (threadNum threadArgs)
            \<and> PrimeNumberGenerator env threadArgs w
              = (0, w\<lparr>stderr := stderr w
                     @ [''Could not open '' @ outputFileName threadArgs @ '' on thread ''
                          @ digits @ ''.'' @ [CHR 0x0A]]\<rparr>)"
      using fail [of w] canonical_decimal [of "unat (threadNum threadArgs)"]
        decimal_value_decimal [of "unat (threadNum threadArgs)"]
      by (intro exI [of _ "decimal (unat (threadNum threadArgs))"] conjI)
    show "files (snd (PrimeNumberGenerator env threadArgs w)) = files w"
      by (simp add: fail)
  next
    fix env' :: worker_env and sibling :: ThreadArguments
    assume h: "fopen_succeeds env' (outputFileName sibling)
               \<and> (\<forall>k. receivedQuitSignal_read env' k = 0)"
    then show "\<exists>content.
                  files (snd (PrimeNumberGenerator env' sibling
                                (snd (PrimeNumberGenerator env threadArgs w))))
                    (outputFileName sibling) = Some content
                  \<and> read_numbers [] content
                    = Some (map unat (primes_in (beginCalculationsAt sibling)
                                                (endCalculationsAt sibling)))"
      by (intro ok) simp_all
    from h have "\<exists>content.
                  files (snd (PrimeNumberGenerator env' sibling w)) (outputFileName sibling)
                    = Some content
                  \<and> read_numbers [] content
                    = Some (map unat (primes_in (beginCalculationsAt sibling)
                                                (endCalculationsAt sibling)))"
      by (intro ok) simp_all
    then show "\<exists>content.
                  files (snd (PrimeNumberGenerator env threadArgs
                                (snd (PrimeNumberGenerator env' sibling w))))
                    (outputFileName sibling) = Some content
                  \<and> read_numbers [] content
                    = Some (map unat (primes_in (beginCalculationsAt sibling)
                                                (endCalculationsAt sibling)))"
      by (simp add: fail)
  qed
qed

theorem worker_without_destination_witness:
  "(\<exists>digits. canonical_numeral digits \<and> decimal_value digits = 1
      \<and> PrimeNumberGenerator
          \<lparr>fopen_succeeds = (\<lambda>name. name \<noteq> ''/ro/PRIMES_THREAD_0.TXT''),
           receivedQuitSignal_read = (\<lambda>k. 0)\<rparr>
          \<lparr>threadNum = 1, cpuCoreNum = 1, beginCalculationsAt = 0,
           endCalculationsAt = 10, outputFileName = ''/ro/PRIMES_THREAD_0.TXT''\<rparr>
          \<lparr>files = Map.empty, stderr = []\<rparr>
        = (0, \<lparr>files = Map.empty,
               stderr = [''Could not open /ro/PRIMES_THREAD_0.TXT on thread '' @ digits
                           @ ''.'' @ [CHR 0x0A]]\<rparr>))
   \<and> PrimeNumberGenerator
        \<lparr>fopen_succeeds = (\<lambda>name. name \<noteq> ''/ro/PRIMES_THREAD_0.TXT''),
         receivedQuitSignal_read = (\<lambda>k. 0)\<rparr>
        \<lparr>threadNum = 1, cpuCoreNum = 1, beginCalculationsAt = 0,
         endCalculationsAt = 10, outputFileName = ''/ro/PRIMES_THREAD_0.TXT''\<rparr>
        \<lparr>files = Map.empty, stderr = []\<rparr>
      = (0, \<lparr>files = Map.empty,
             stderr = [''Could not open /ro/PRIMES_THREAD_0.TXT on thread 1.'' @ [CHR 0x0A]]\<rparr>)
   \<and> (\<exists>content.
        files (snd (PrimeNumberGenerator
          \<lparr>fopen_succeeds = (\<lambda>name. name \<noteq> ''/ro/PRIMES_THREAD_0.TXT''),
           receivedQuitSignal_read = (\<lambda>k. 0)\<rparr>
          \<lparr>threadNum = 2, cpuCoreNum = 2, beginCalculationsAt = 10,
           endCalculationsAt = 20, outputFileName = ''/rw/PRIMES_THREAD_1.TXT''\<rparr>
          (snd (PrimeNumberGenerator
            \<lparr>fopen_succeeds = (\<lambda>name. name \<noteq> ''/ro/PRIMES_THREAD_0.TXT''),
             receivedQuitSignal_read = (\<lambda>k. 0)\<rparr>
            \<lparr>threadNum = 1, cpuCoreNum = 1, beginCalculationsAt = 0,
             endCalculationsAt = 10, outputFileName = ''/ro/PRIMES_THREAD_0.TXT''\<rparr>
            \<lparr>files = Map.empty, stderr = []\<rparr>)))) ''/rw/PRIMES_THREAD_1.TXT'' = Some content
        \<and> read_numbers [] content = Some [11, 13, 17, 19])"
proof -
  let ?env = "\<lparr>fopen_succeeds = (\<lambda>name. name \<noteq> ''/ro/PRIMES_THREAD_0.TXT''),
               receivedQuitSignal_read = (\<lambda>k. (0 :: cint))\<rparr>"
  let ?a = "\<lparr>threadNum = 1, cpuCoreNum = 1, beginCalculationsAt = 0,
      endCalculationsAt = 10, outputFileName = ''/ro/PRIMES_THREAD_0.TXT''\<rparr>"
  let ?b = "\<lparr>threadNum = 2, cpuCoreNum = 2, beginCalculationsAt = 10,
         endCalculationsAt = 20, outputFileName = ''/rw/PRIMES_THREAD_1.TXT''\<rparr>"
  let ?w = "\<lparr>files = Map.empty, stderr = []\<rparr>"
  have closed: "\<not> fopen_succeeds ?env (outputFileName ?a)"
    by simp
  have message: "\<exists>digits. canonical_numeral digits \<and> decimal_value digits = 1
      \<and> PrimeNumberGenerator ?env ?a ?w
        = (0, \<lparr>files = Map.empty,
               stderr = [''Could not open /ro/PRIMES_THREAD_0.TXT on thread '' @ digits
                           @ ''.'' @ [CHR 0x0A]]\<rparr>)"
    using worker_without_destination [OF closed, of ?w, THEN conjunct1]
    by simp
  have evaluated: "PrimeNumberGenerator ?env ?a ?w
      = (0, \<lparr>files = Map.empty,
             stderr = [''Could not open /ro/PRIMES_THREAD_0.TXT on thread 1.'' @ [CHR 0x0A]]\<rparr>)"
    by (simp add: PrimeNumberGenerator_def could_not_open_def decimal.simps digit_char_def
          newline_def)
  have "\<exists>content.
        files (snd (PrimeNumberGenerator ?env ?b (snd (PrimeNumberGenerator ?env ?a ?w))))
          ''/rw/PRIMES_THREAD_1.TXT'' = Some content
        \<and> read_numbers [] content = Some [11, 13, 17, 19]"
    using worker_without_destination [OF closed, of ?w, THEN conjunct2, THEN conjunct2,
            THEN spec, THEN spec, of ?env ?b]
    by (simp add: primes_in_10_20)
  with message evaluated show ?thesis
    by (intro conjI)
qed

section \<open>Properties of the work assignments\<close>

lemma quotient_times_count:
  fixes dm count :: ulong
  shows "unat (dm div count) * unat count \<le> unat dm"
  by (simp add: unat_div)

lemma bounds_unat:
  fixes dm count iter :: ulong
  assumes "iter < count"
  shows "unat ((dm div count) * iter) = (unat dm div unat count) * unat iter"
    and "unat ((dm div count) * iter + dm div count) = (unat dm div unat count) * (unat iter + 1)"
proof -
  let ?q = "unat dm div unat count"
  from assms have less: "unat iter + 1 \<le> unat count"
    by (simp add: word_less_nat_alt)
  then have "?q * (unat iter + 1) \<le> ?q * unat count"
    by (rule mult_le_mono2)
  also have "\<dots> \<le> unat dm"
    by simp
  also have "unat dm < 2 ^ LENGTH(64)"
    by (rule unsigned_less)
  finally have bound: "?q * (unat iter + 1) < 2 ^ LENGTH(64)" .
  have "?q * unat iter \<le> ?q * (unat iter + 1)"
    by simp
  from this bound have "?q * unat iter < 2 ^ LENGTH(64)"
    by (rule le_less_trans)
  then have "unat (dm div count) * unat iter < 2 ^ LENGTH(64)"
    by (simp only: unat_div)
  then have "unat ((dm div count) * iter) = unat (dm div count) * unat iter"
    by (rule unat_mult_lem [THEN iffD1])
  then show mult: "unat ((dm div count) * iter) = ?q * unat iter"
    by (simp only: unat_div)
  have "?q * unat iter + ?q = ?q * (unat iter + 1)"
    by (simp only: distrib_left mult_1_right)
  with bound have "unat ((dm div count) * iter) + unat (dm div count) < 2 ^ LENGTH(64)"
    by (simp only: mult unat_div)
  then have "unat ((dm div count) * iter + dm div count)
             = unat ((dm div count) * iter) + unat (dm div count)"
    by (rule unat_add_lem [THEN iffD1])
  also have "\<dots> = ?q * unat iter + ?q"
    by (simp only: mult unat_div)
  also have "\<dots> = ?q * (unat iter + 1)"
    by (simp only: distrib_left mult_1_right)
  finally show "unat ((dm div count) * iter + dm div count) = ?q * (unat iter + 1)" .
qed

lemma partition_length: "length (partition_domain cwd dm count) = unat count"
  by (simp add: partition_domain_def)

lemma partition_nth:
  assumes "i < unat count"
  shows "partition_domain cwd dm count ! i = mkThreadArguments cwd dm count (of_nat i)"
  using assms by (simp add: partition_domain_def)

lemma index_word:
  fixes count :: ulong
  assumes "i < unat count"
  shows "unat (of_nat i :: ulong) = i" and "(of_nat i :: ulong) < count"
proof -
  from assms show u: "unat (of_nat i :: ulong) = i"
    by (intro le_unat_uoi [of i count]) simp
  with assms show "(of_nat i :: ulong) < count"
    by (simp add: word_less_nat_alt)
qed

lemma partition_bounds:
  assumes "i < unat count"
  shows "unat (beginCalculationsAt (partition_domain cwd dm count ! i)) = i * (unat dm div unat count)"
    and "unat (endCalculationsAt (partition_domain cwd dm count ! i)) = (i + 1) * (unat dm div unat count)"
  using bounds_unat [OF index_word(2) [OF assms], of dm] index_word(1) [OF assms]
  by (simp_all add: partition_nth [OF assms] mkThreadArguments_def Let_def mult.commute)

lemma count_pos:
  fixes count :: ulong
  shows "(1 \<le> count) = (0 < unat count)"
  by (simp add: word_le_nat_alt Suc_le_eq)

lemma range_nonempty_iff:
  assumes "1 \<le> count" and "i < unat count"
  shows "(beginCalculationsAt (partition_domain cwd dm count ! i)
          < endCalculationsAt (partition_domain cwd dm count ! i)) = (count \<le> dm)"
proof -
  from assms(1) have pos: "0 < unat count"
    by (simp only: count_pos)
  have "(beginCalculationsAt (partition_domain cwd dm count ! i)
          < endCalculationsAt (partition_domain cwd dm count ! i))
        = (i * (unat dm div unat count) < (i + 1) * (unat dm div unat count))"
    by (simp only: word_less_nat_alt partition_bounds [OF assms(2)])
  also have "\<dots> = (0 < unat dm div unat count)"
    by simp
  also have "\<dots> = (unat count \<le> unat dm)"
    using pos by (simp add: div_greater_zero_iff)
  finally show ?thesis
    by (simp only: word_le_nat_alt)
qed

lemma ranges_ordered:
  assumes "i < j" and "j < unat count"
  shows "endCalculationsAt (partition_domain cwd dm count ! i)
         \<le> beginCalculationsAt (partition_domain cwd dm count ! j)"
proof -
  from assms have i: "i < unat count"
    by simp
  from assms(1) have "(i + 1) * (unat dm div unat count) \<le> j * (unat dm div unat count)"
    by (intro mult_le_mono1) simp
  then show ?thesis
    by (simp only: word_le_nat_alt partition_bounds [OF i] partition_bounds [OF assms(2)])
qed

lemma last_partition:
  assumes "1 \<le> count"
  shows "unat (endCalculationsAt (last (partition_domain cwd dm count)))
         = unat count * (unat dm div unat count)"
proof -
  from assms have pos: "0 < unat count"
    by (simp only: count_pos)
  then have ne: "partition_domain cwd dm count \<noteq> []"
    using partition_length [of cwd dm count] by auto
  from pos have i: "unat count - 1 < unat count"
    by simp
  have "last (partition_domain cwd dm count) = partition_domain cwd dm count ! (unat count - 1)"
    using ne by (simp add: last_conv_nth partition_length)
  then show ?thesis
    using pos by (simp only: partition_bounds [OF i]) simp
qed

lemma unat_ULONG_MAX: "unat ULONG_MAX = 2 ^ 64 - 1"
  by (simp add: ULONG_MAX_def unsigned_minus_1_eq_mask mask_eq_exp_minus_1)

lemma count_le_ULONG_MAX: "count \<le> ULONG_MAX"
  by (simp add: ULONG_MAX_def)

text \<open>
  Claim C1.  For every \<open>count\<close> of at least 1 there are exactly \<open>count\<close> assignments;
  assignment \<open>i\<close> starts at \<open>i\<close> times the integer quotient of \<open>domain_max\<close> by
  \<open>count\<close> and every assignment, the last included, has that quotient as its size; an
  assignment of lower index ends no later than one of higher index starts, and their
  ranges are disjoint; the last end is \<open>count\<close> times the quotient, not \<open>domain_max\<close>,
  and falls short of \<open>domain_max\<close> by the remainder of the division, at most
  \<open>count - 1\<close>.  All this holds for every \<open>domain_max\<close>.  The program divides
  \<open>ULONG_MAX\<close>, and there every assignment has its start before its end.
\<close>

theorem partition_assignments:
  assumes "1 \<le> count"
  shows "length (partition_domain cwd domain_max count) = unat count
    \<and> (\<forall>i<unat count.
          unat (beginCalculationsAt (partition_domain cwd domain_max count ! i))
            = i * (unat domain_max div unat count)
          \<and> unat (endCalculationsAt (partition_domain cwd domain_max count ! i))
            = unat (beginCalculationsAt (partition_domain cwd domain_max count ! i))
              + unat domain_max div unat count)
    \<and> (\<forall>i<unat count.
          beginCalculationsAt (partition_domain cwd ULONG_MAX count ! i)
          < endCalculationsAt (partition_domain cwd ULONG_MAX count ! i))
    \<and> (\<forall>i j. i < j \<and> j < unat count \<longrightarrow>
          endCalculationsAt (partition_domain cwd domain_max count ! i)
          \<le> beginCalculationsAt (partition_domain cwd domain_max count ! j)
          \<and> {x. beginCalculationsAt (partition_domain cwd domain_max count ! i) \<le> x
                 \<and> x < endCalculationsAt (partition_domain cwd domain_max count ! i)}
            \<inter> {x. beginCalculationsAt (partition_domain cwd domain_max count ! j) \<le> x
                 \<and> x < endCalculationsAt (partition_domain cwd domain_max count ! j)} = {})
    \<and> unat (endCalculationsAt (last (partition_domain cwd domain_max count)))
        = unat count * (unat domain_max div unat count)
    \<and> unat domain_max - unat (endCalculationsAt (last (partition_domain cwd domain_max count)))
        = unat domain_max mod unat count
    \<and> unat domain_max mod unat count \<le> unat count - 1"
proof (intro conjI allI impI)
  from assms have pos: "0 < unat count"
    by (simp only: count_pos)
  show "length (partition_domain cwd domain_max count) = unat count"
    by (rule partition_length)
  show "unat (endCalculationsAt (last (partition_domain cwd domain_max count)))
        = unat count * (unat domain_max div unat count)"
    by (rule last_partition [OF assms])
  show "unat domain_max - unat (endCalculationsAt (last (partition_domain cwd domain_max count)))
        = unat domain_max mod unat count"
    by (simp only: last_partition [OF assms] minus_mult_div_eq_mod)
  from pos have "unat domain_max mod unat count < unat count"
    by (rule mod_less_divisor)
  then show "unat domain_max mod unat count \<le> unat count - 1"
    by simp
next
  fix i
  assume i: "i < unat count"
  show "unat (beginCalculationsAt (partition_domain cwd domain_max count ! i))
            = i * (unat domain_max div unat count)"
    by (rule partition_bounds(1) [OF i])
  show "unat (endCalculationsAt (partition_domain cwd domain_max count ! i))
            = unat (beginCalculationsAt (partition_domain cwd domain_max count ! i))
              + unat domain_max div unat count"
    by (simp only: partition_bounds [OF i]) simp
next
  fix i
  assume i: "i < unat count"
  show "beginCalculationsAt (partition_domain cwd ULONG_MAX count ! i)
        < endCalculationsAt (partition_domain cwd ULONG_MAX count ! i)"
    by (simp only: range_nonempty_iff [OF assms i] count_le_ULONG_MAX)
next
  fix i j
  assume "i < j \<and> j < unat count"
  then show ordered: "endCalculationsAt (partition_domain cwd domain_max count ! i)
          \<le> beginCalculationsAt (partition_domain cwd domain_max count ! j)"
    by (intro ranges_ordered) simp_all
  show "{x. beginCalculationsAt (partition_domain cwd domain_max count ! i) \<le> x
                 \<and> x < endCalculationsAt (partition_domain cwd domain_max count ! i)}
            \<inter> {x. beginCalculationsAt (partition_domain cwd domain_max count ! j) \<le> x
                 \<and> x < endCalculationsAt (partition_domain cwd domain_max count ! j)} = {}"
  proof (rule ccontr)
    assume "{x. beginCalculationsAt (partition_domain cwd domain_max count ! i) \<le> x
                 \<and> x < endCalculationsAt (partition_domain cwd domain_max count ! i)}
            \<inter> {x. beginCalculationsAt (partition_domain cwd domain_max count ! j) \<le> x
                 \<and> x < endCalculationsAt (partition_domain cwd domain_max count ! j)} \<noteq> {}"
    then obtain x where "x < endCalculationsAt (partition_domain cwd domain_max count ! i)"
      and "beginCalculationsAt (partition_domain cwd domain_max count ! j) \<le> x"
      by auto
    with ordered show False
      by simp
  qed
qed

lemma partition_10_4:
  "map (\<lambda>a. (beginCalculationsAt a, endCalculationsAt a)) (partition_domain [] 10 4)
   = [(0, 2), (2, 4), (4, 6), (6, 8)]"
  by (simp add: partition_domain_def mkThreadArguments_def upt_rec)

theorem partition_assignments_witness:
  "(1 :: ulong) \<le> 4
   \<and> length (partition_domain [] ULONG_MAX 4) = 4
   \<and> beginCalculationsAt (partition_domain [] ULONG_MAX 4 ! 3)
     < endCalculationsAt (partition_domain [] ULONG_MAX 4 ! 3)
   \<and> endCalculationsAt (partition_domain [] ULONG_MAX 4 ! 1)
     \<le> beginCalculationsAt (partition_domain [] ULONG_MAX 4 ! 2)
   \<and> unat (endCalculationsAt (last (partition_domain [] ULONG_MAX 4))) = 18446744073709551612
   \<and> unat ULONG_MAX - unat (endCalculationsAt (last (partition_domain [] ULONG_MAX 4))) = 3
   \<and> unat (endCalculationsAt (last (partition_domain [] 10 4))) = 8
   \<and> unat (10 :: ulong) - unat (endCalculationsAt (last (partition_domain [] 10 4))) = 2"
proof -
  have h: "(1 :: ulong) \<le> 4"
    by simp
  note code = partition_assignments [OF h, of "[]" ULONG_MAX]
  note small = partition_assignments [OF h, of "[]" 10]
  have "length (partition_domain [] ULONG_MAX 4) = 4"
    using code by simp
  moreover have "beginCalculationsAt (partition_domain [] ULONG_MAX 4 ! 3)
                 < endCalculationsAt (partition_domain [] ULONG_MAX 4 ! 3)"
    using code by simp
  moreover have "endCalculationsAt (partition_domain [] ULONG_MAX 4 ! 1)
                 \<le> beginCalculationsAt (partition_domain [] ULONG_MAX 4 ! 2)"
    using code by simp
  moreover have "unat (endCalculationsAt (last (partition_domain [] ULONG_MAX 4)))
                 = 18446744073709551612"
    using code by (simp add: unat_ULONG_MAX)
  moreover have "unat ULONG_MAX - unat (endCalculationsAt (last (partition_domain [] ULONG_MAX 4)))
                 = 3"
    using code by (simp add: unat_ULONG_MAX)
  moreover have "unat (endCalculationsAt (last (partition_domain [] 10 4))) = 8"
    using small by simp
  moreover have "unat (10 :: ulong) - unat (endCalculationsAt (last (partition_domain [] 10 4))) = 2"
    using small by simp
  ultimately show ?thesis
    using h by (intro conjI)
qed

text \<open>
  Claim C10.  For every core count of at least 1 and every index below it, the product
  and the sum that compute the bounds are exact in \<open>unsigned long\<close> arithmetic: the
  start is the quotient of \<open>ULONG_MAX\<close> by the count times the index, the end is the
  start plus the quotient, that is the quotient times the index plus one, and it does
  not exceed \<open>ULONG_MAX\<close>; end minus start is the quotient for every worker.
\<close>

theorem bounds_never_overflow:
  assumes "1 \<le> numberOfCpuCores" and "iter < numberOfCpuCores"
  shows "unat (beginCalculationsAt (mkThreadArguments cwd ULONG_MAX numberOfCpuCores iter))
           = (unat ULONG_MAX div unat numberOfCpuCores) * unat iter
    \<and> unat (endCalculationsAt (mkThreadArguments cwd ULONG_MAX numberOfCpuCores iter))
           = unat (beginCalculationsAt (mkThreadArguments cwd ULONG_MAX numberOfCpuCores iter))
             + unat ULONG_MAX div unat numberOfCpuCores
    \<and> unat (endCalculationsAt (mkThreadArguments cwd ULONG_MAX numberOfCpuCores iter))
           = (unat iter + 1) * (unat ULONG_MAX div unat numberOfCpuCores)
    \<and> unat (endCalculationsAt (mkThreadArguments cwd ULONG_MAX numberOfCpuCores iter))
           \<le> unat ULONG_MAX
    \<and> unat ULONG_MAX = 2 ^ 64 - 1
    \<and> endCalculationsAt (mkThreadArguments cwd ULONG_MAX numberOfCpuCores iter)
        - beginCalculationsAt (mkThreadArguments cwd ULONG_MAX numberOfCpuCores iter)
        = ULONG_MAX div numberOfCpuCores"
proof -
  let ?q = "unat ULONG_MAX div unat numberOfCpuCores"
  let ?A = "mkThreadArguments cwd ULONG_MAX numberOfCpuCores iter"
  have b: "unat (beginCalculationsAt ?A) = ?q * unat iter"
    using bounds_unat(1) [OF assms(2), of ULONG_MAX]
    by (simp add: mkThreadArguments_def Let_def)
  have e: "unat (endCalculationsAt ?A) = ?q * (unat iter + 1)"
    using bounds_unat(2) [OF assms(2), of ULONG_MAX]
    by (simp add: mkThreadArguments_def Let_def)
  from assms(2) have "unat iter + 1 \<le> unat numberOfCpuCores"
    by (simp add: word_less_nat_alt)
  then have "?q * (unat iter + 1) \<le> ?q * unat numberOfCpuCores"
    by (rule mult_le_mono2)
  also have "\<dots> \<le> unat ULONG_MAX"
    by simp
  finally have le: "unat (endCalculationsAt ?A) \<le> unat ULONG_MAX"
    by (simp only: e)
  have sum: "unat (endCalculationsAt ?A)
             = unat (beginCalculationsAt ?A) + unat ULONG_MAX div unat numberOfCpuCores"
    by (simp only: b e) simp
  have e': "unat (endCalculationsAt ?A) = (unat iter + 1) * ?q"
    by (simp only: e mult.commute)
  have diff: "endCalculationsAt ?A - beginCalculationsAt ?A = ULONG_MAX div numberOfCpuCores"
    by (simp add: mkThreadArguments_def Let_def)
  from b sum e' le unat_ULONG_MAX diff show ?thesis
    by (intro conjI)
qed

theorem bounds_never_overflow_witness:
  "(1 :: ulong) \<le> 3 \<and> (2 :: ulong) < 3
   \<and> beginCalculationsAt (mkThreadArguments [] ULONG_MAX 3 2) = 12297829382473034410
   \<and> endCalculationsAt (mkThreadArguments [] ULONG_MAX 3 2) = 18446744073709551615
   \<and> unat (endCalculationsAt (mkThreadArguments [] ULONG_MAX 3 2)) = 3 * (unat ULONG_MAX div 3)"
proof -
  have h1: "(1 :: ulong) \<le> 3" and h2: "(2 :: ulong) < 3"
    by simp_all
  have "unat (endCalculationsAt (mkThreadArguments [] ULONG_MAX 3 2))
        = (unat (2 :: ulong) + 1) * (unat ULONG_MAX div unat (3 :: ulong))"
    using bounds_never_overflow [OF h1 h2, of "[]"] by (elim conjE)
  then have "unat (endCalculationsAt (mkThreadArguments [] ULONG_MAX 3 2)) = 3 * (unat ULONG_MAX div 3)"
    by simp
  moreover have "beginCalculationsAt (mkThreadArguments [] ULONG_MAX 3 2) = 12297829382473034410"
    and "endCalculationsAt (mkThreadArguments [] ULONG_MAX 3 2) = 18446744073709551615"
    by (simp_all add: mkThreadArguments_def ULONG_MAX_def)
  ultimately show ?thesis
    using h1 h2 by (intro conjI)
qed

lemma cover_nat:
  fixes n q x :: nat
  shows "(\<exists>i<n. i * q \<le> x \<and> x < (i + 1) * q) = (x < n * q)"
proof
  assume "\<exists>i<n. i * q \<le> x \<and> x < (i + 1) * q"
  then obtain i where i: "i < n" "x < (i + 1) * q"
    by (elim exE conjE)
  from i(1) have "(i + 1) * q \<le> n * q"
    by (intro mult_le_mono1) simp
  with i(2) show "x < n * q"
    by simp
next
  assume x: "x < n * q"
  then have q: "0 < q"
    by (cases q) simp_all
  from x q have "x div q < n"
    by (simp add: less_mult_imp_div_less)
  moreover have "(x div q) * q \<le> x"
    by simp
  moreover from q have "x < (x div q + 1) * q"
    using dividend_less_div_times [of q x] by (simp add: algebra_simps)
  ultimately show "\<exists>i<n. i * q \<le> x \<and> x < (i + 1) * q"
    by (intro exI [of _ "x div q"] conjI)
qed

lemma unique_nat:
  fixes i j q x :: nat
  assumes "i * q \<le> x" "x < (i + 1) * q" "j * q \<le> x" "x < (j + 1) * q"
  shows "i = j"
proof (rule ccontr)
  assume "i \<noteq> j"
  then consider "i < j" | "j < i"
    by (auto simp: neq_iff)
  then show False
  proof cases
    case 1
    then have "(i + 1) * q \<le> j * q"
      by (intro mult_le_mono1) simp
    with assms show False
      by simp
  next
    case 2
    then have "(j + 1) * q \<le> i * q"
      by (intro mult_le_mono1) simp
    with assms show False
      by simp
  qed
qed

lemma in_range_nat:
  assumes "i < unat count"
  shows "(beginCalculationsAt (partition_domain cwd dm count ! i) \<le> x
          \<and> x < endCalculationsAt (partition_domain cwd dm count ! i))
         = (i * (unat dm div unat count) \<le> unat x \<and> unat x < (i + 1) * (unat dm div unat count))"
  by (simp only: word_le_nat_alt word_less_nat_alt partition_bounds [OF assms])

lemma covered_iff:
  "(\<exists>i<unat count. beginCalculationsAt (partition_domain cwd dm count ! i) \<le> x
                     \<and> x < endCalculationsAt (partition_domain cwd dm count ! i))
   = (unat x < unat count * (unat dm div unat count))"
proof -
  have "(\<exists>i<unat count. beginCalculationsAt (partition_domain cwd dm count ! i) \<le> x
                     \<and> x < endCalculationsAt (partition_domain cwd dm count ! i))
        = (\<exists>i<unat count. i * (unat dm div unat count) \<le> unat x
                     \<and> unat x < (i + 1) * (unat dm div unat count))"
    by (intro ex_cong1 conj_cong refl)
       (simp_all only: word_le_nat_alt word_less_nat_alt partition_bounds)
  then show ?thesis
    by (simp only: cover_nat)
qed

text \<open>
  Claim C2, as the code has it.  For every count of at least 1 the ranges of the
  assignments cover exactly the numbers below \<open>count\<close> times the integer quotient of
  \<open>ULONG_MAX\<close> by \<open>count\<close>, each such number in exactly one range; that bound is
  \<open>ULONG_MAX\<close> minus the remainder of the division, and the ranges cover every number
  below \<open>ULONG_MAX\<close> exactly when \<open>count\<close> divides \<open>ULONG_MAX\<close>.
\<close>

theorem ranges_cover_prefix:
  assumes "1 \<le> count"
  shows "(\<forall>x. (\<exists>i<unat count.
                 beginCalculationsAt (partition_domain cwd ULONG_MAX count ! i) \<le> x
                 \<and> x < endCalculationsAt (partition_domain cwd ULONG_MAX count ! i))
              = (unat x < unat count * (unat ULONG_MAX div unat count)))
    \<and> (\<forall>x i j. i < unat count \<and> j < unat count
          \<and> beginCalculationsAt (partition_domain cwd ULONG_MAX count ! i) \<le> x
          \<and> x < endCalculationsAt (partition_domain cwd ULONG_MAX count ! i)
          \<and> beginCalculationsAt (partition_domain cwd ULONG_MAX count ! j) \<le> x
          \<and> x < endCalculationsAt (partition_domain cwd ULONG_MAX count ! j)
          \<longrightarrow> i = j)
    \<and> unat count * (unat ULONG_MAX div unat count)
        = unat ULONG_MAX - unat ULONG_MAX mod unat count
    \<and> ((\<forall>x<ULONG_MAX. \<exists>i<unat count.
            beginCalculationsAt (partition_domain cwd ULONG_MAX count ! i) \<le> x
            \<and> x < endCalculationsAt (partition_domain cwd ULONG_MAX count ! i))
        = (unat count dvd unat ULONG_MAX))"
proof (intro conjI allI impI)
  fix x
  show "(\<exists>i<unat count.
                 beginCalculationsAt (partition_domain cwd ULONG_MAX count ! i) \<le> x
                 \<and> x < endCalculationsAt (partition_domain cwd ULONG_MAX count ! i))
              = (unat x < unat count * (unat ULONG_MAX div unat count))"
    by (rule covered_iff)
next
  fix x i j
  assume h: "i < unat count \<and> j < unat count
          \<and> beginCalculationsAt (partition_domain cwd ULONG_MAX count ! i) \<le> x
          \<and> x < endCalculationsAt (partition_domain cwd ULONG_MAX count ! i)
          \<and> beginCalculationsAt (partition_domain cwd ULONG_MAX count ! j) \<le> x
          \<and> x < endCalculationsAt (partition_domain cwd ULONG_MAX count ! j)"
  then have i: "i < unat count" and j: "j < unat count"
    by simp_all
  from h have "beginCalculationsAt (partition_domain cwd ULONG_MAX count ! i) \<le> x
          \<and> x < endCalculationsAt (partition_domain cwd ULONG_MAX count ! i)"
    by simp
  then have "i * (unat ULONG_MAX div unat count) \<le> unat x
               \<and> unat x < (i + 1) * (unat ULONG_MAX div unat count)"
    by (simp only: in_range_nat [OF i])
  moreover from h have "beginCalculationsAt (partition_domain cwd ULONG_MAX count ! j) \<le> x
          \<and> x < endCalculationsAt (partition_domain cwd ULONG_MAX count ! j)"
    by simp
  then have "j * (unat ULONG_MAX div unat count) \<le> unat x
               \<and> unat x < (j + 1) * (unat ULONG_MAX div unat count)"
    by (simp only: in_range_nat [OF j])
  ultimately show "i = j"
    using unique_nat [of i "unat ULONG_MAX div unat count" "unat x" j] by simp
next
  show "unat count * (unat ULONG_MAX div unat count)
        = unat ULONG_MAX - unat ULONG_MAX mod unat count"
    by (simp add: minus_mod_eq_mult_div)
next
  let ?M = "unat ULONG_MAX" and ?c = "unat count"
  have le: "?c * (?M div ?c) \<le> ?M"
    by simp
  have "(\<forall>x<ULONG_MAX. unat x < ?c * (?M div ?c)) = (?c dvd ?M)"
  proof
    assume all: "\<forall>x<ULONG_MAX. unat x < ?c * (?M div ?c)"
    have "?c * (?M div ?c) = ?M"
    proof (rule ccontr)
      assume "?c * (?M div ?c) \<noteq> ?M"
      with le have lt: "?c * (?M div ?c) < ?M"
        by (rule le_neq_trans)
      from le have u: "unat (of_nat (?c * (?M div ?c)) :: ulong) = ?c * (?M div ?c)"
        by (rule le_unat_uoi)
      with lt have "(of_nat (?c * (?M div ?c)) :: ulong) < ULONG_MAX"
        by (simp only: word_less_nat_alt)
      with all have "unat (of_nat (?c * (?M div ?c)) :: ulong) < ?c * (?M div ?c)"
        by (elim allE [of _ "of_nat (?c * (?M div ?c))"] impE)
      with u show False
        by simp
    qed
    then show "?c dvd ?M"
      by (metis dvd_triv_left)
  next
    assume "?c dvd ?M"
    then have "?c * (?M div ?c) = ?M"
      by (rule dvd_mult_div_cancel)
    then show "\<forall>x<ULONG_MAX. unat x < ?c * (?M div ?c)"
      by (simp add: word_less_nat_alt)
  qed
  then show "(\<forall>x<ULONG_MAX. \<exists>i<unat count.
            beginCalculationsAt (partition_domain cwd ULONG_MAX count ! i) \<le> x
            \<and> x < endCalculationsAt (partition_domain cwd ULONG_MAX count ! i))
        = (unat count dvd unat ULONG_MAX)"
    by (simp only: covered_iff)
qed

theorem ranges_cover_prefix_witness:
  "(1 :: ulong) \<le> 2
   \<and> \<not> (\<exists>i<2. beginCalculationsAt (partition_domain [] ULONG_MAX 2 ! i) \<le> 18446744073709551614
             \<and> 18446744073709551614 < endCalculationsAt (partition_domain [] ULONG_MAX 2 ! i))
   \<and> (\<exists>i<2. beginCalculationsAt (partition_domain [] ULONG_MAX 2 ! i) \<le> 18446744073709551613
             \<and> 18446744073709551613 < endCalculationsAt (partition_domain [] ULONG_MAX 2 ! i))"
proof -
  have h: "(1 :: ulong) \<le> 2"
    by simp
  note inst = ranges_cover_prefix [OF h, of "[]", THEN conjunct1]
  from inst [THEN spec, of 18446744073709551614]
  have "\<not> (\<exists>i<2. beginCalculationsAt (partition_domain [] ULONG_MAX 2 ! i) \<le> 18446744073709551614
             \<and> 18446744073709551614 < endCalculationsAt (partition_domain [] ULONG_MAX 2 ! i))"
    by (simp add: unat_ULONG_MAX)
  moreover from inst [THEN spec, of 18446744073709551613]
  have "\<exists>i<2. beginCalculationsAt (partition_domain [] ULONG_MAX 2 ! i) \<le> 18446744073709551613
             \<and> 18446744073709551613 < endCalculationsAt (partition_domain [] ULONG_MAX 2 ! i)"
    by (simp add: unat_ULONG_MAX)
  ultimately show ?thesis
    using h by (intro conjI)
qed

text \<open>
  With two execution units the number \<open>ULONG_MAX - 1\<close> lies below \<open>ULONG_MAX\<close> and in
  neither of the two ranges.
\<close>

theorem ranges_miss_tail_counterexample:
  "length (partition_domain [] ULONG_MAX 2) = 2
   \<and> (18446744073709551614 :: ulong) < ULONG_MAX
   \<and> \<not> (beginCalculationsAt (partition_domain [] ULONG_MAX 2 ! 0) \<le> 18446744073709551614
        \<and> 18446744073709551614 < endCalculationsAt (partition_domain [] ULONG_MAX 2 ! 0))
   \<and> \<not> (beginCalculationsAt (partition_domain [] ULONG_MAX 2 ! 1) \<le> 18446744073709551614
        \<and> 18446744073709551614 < endCalculationsAt (partition_domain [] ULONG_MAX 2 ! 1))"
  by (simp add: partition_domain_def mkThreadArguments_def ULONG_MAX_def upt_rec)

section \<open>Properties of the dispatcher\<close>

lemmas eval_main = main_def launch_loop.simps cancel_loop.simps join_loop.simps launch_step_def
  launch_result_def initial_state_def mkThreadArguments_def calloc_succeeds_def
  zeroed_ThreadArguments_def EXIT_SUCCESS_def EXIT_FAILURE_def EINVAL_def ULONG_MAX_def
  FILENAME_MAX_def sizeof_pthread_t_def sizeof_ThreadArguments_def decimal.simps digit_char_def
  Let_def two_units_def

lemma cancel_loop_never_exits:
  "\<exists>tr. cancel_loop env numberOfCpuCores iter s = Inl tr"
proof (induction env numberOfCpuCores iter s rule: cancel_loop.induct)
  case (1 env numberOfCpuCores iter s)
  show ?case
  proof (cases "iter - 1 < numberOfCpuCores")
    case True
    with "1.IH" [OF refl _ True refl] show ?thesis
      by (subst cancel_loop.simps) (simp add: Let_def)
  next
    case False
    then show ?thesis
      by (subst cancel_loop.simps) (simp add: Let_def)
  qed
qed

text \<open>
  When every launch step succeeds, the loop runs through all indices and leaves in
  \<open>threadArguments\<close> the assignments of \<open>partition_domain\<close> for \<open>ULONG_MAX\<close>.
\<close>

lemma take_Suc_update:
  "u < length xs \<Longrightarrow> take (Suc u) (xs[u := v]) = take u xs @ [v]"
  by (simp add: take_Suc_conv_app_nth)

lemma launch_loop_all_succeed:
  assumes "\<forall>i. iter \<le> i \<and> i < numberOfCpuCores \<longrightarrow> launch_result env i = 0"
    and "iter \<le> numberOfCpuCores"
    and "length (threadArguments s) = unat numberOfCpuCores"
    and "length (threads s) = unat numberOfCpuCores"
  shows "\<exists>s'. launch_loop env numberOfCpuCores iter s = Inr s'
           \<and> threadArguments s'
             = take (unat iter) (threadArguments s)
               @ drop (unat iter)
                   (partition_domain (get_current_dir_name env) ULONG_MAX numberOfCpuCores)
           \<and> threads s'
             = take (unat iter) (threads s)
               @ map (\<lambda>i. pthread_create_out env (of_nat i)) [unat iter..<unat numberOfCpuCores]
           \<and> trace s'
             = trace s @ map (\<lambda>i. PthreadCreate (of_nat i)) [unat iter..<unat numberOfCpuCores]
           \<and> result s' = (if iter < numberOfCpuCores then 0 else result s)"
  using assms
proof (induction env numberOfCpuCores iter s rule: launch_loop.induct)
  case (1 env N iter s)
  show ?case
  proof (cases "iter < N")
    case False
    with "1.prems"(2) have eq: "iter = N"
      by simp
    have "launch_loop env N iter s = Inr s"
      using False by (subst launch_loop.simps) simp
    then show ?thesis
      using False "1.prems"(3,4) by (simp add: eq partition_length)
  next
    case True
    let ?s1 = "launch_step env N iter s"
    let ?P = "partition_domain (get_current_dir_name env) ULONG_MAX N"
    from True have u: "unat iter < unat N"
      by (simp add: word_less_nat_alt)
    have suc: "unat (iter + 1) = Suc (unat iter)"
      using word_succ_unat [OF True] by simp
    from "1.prems"(1) True have ok: "launch_result env iter = 0"
      by simp
    then have nfail: "\<not> launch_result env iter \<noteq> 0"
      by simp
    have ok': "\<forall>i. iter + 1 \<le> i \<and> i < N \<longrightarrow> launch_result env i = 0"
    proof (intro allI impI)
      fix i
      assume "iter + 1 \<le> i \<and> i < N"
      then have "unat iter \<le> unat i" and "i < N"
        by (simp_all add: word_le_nat_alt suc)
      then show "launch_result env i = 0"
        using "1.prems"(1) by (simp add: word_le_nat_alt)
    qed
    have le': "iter + 1 \<le> N"
      using u by (simp add: word_le_nat_alt suc)
    have len': "length (threadArguments ?s1) = unat N" "length (threads ?s1) = unat N"
      using "1.prems"(3,4) by (simp_all add: launch_step_def)
    from "1.IH" [OF True nfail ok' le' len']
    obtain s' where run: "launch_loop env N (iter + 1) ?s1 = Inr s'"
      and ta: "threadArguments s'
               = take (unat (iter + 1)) (threadArguments ?s1) @ drop (unat (iter + 1)) ?P"
      and th: "threads s'
               = take (unat (iter + 1)) (threads ?s1)
                 @ map (\<lambda>i. pthread_create_out env (of_nat i)) [unat (iter + 1)..<unat N]"
      and tr: "trace s'
               = trace ?s1 @ map (\<lambda>i. PthreadCreate (of_nat i)) [unat (iter + 1)..<unat N]"
      and res: "result s' = (if iter + 1 < N then 0 else result ?s1)"
      by (elim exE conjE)
    have loop: "launch_loop env N iter s = Inr s'"
      using True ok run by (subst launch_loop.simps) simp
    have nth: "?P ! unat iter = mkThreadArguments (get_current_dir_name env) ULONG_MAX N iter"
      using partition_nth [OF u, of "get_current_dir_name env" ULONG_MAX] by simp
    have "drop (unat iter) ?P = ?P ! unat iter # drop (Suc (unat iter)) ?P"
      using u by (simp add: Cons_nth_drop_Suc partition_length)
    then have ta': "threadArguments s' = take (unat iter) (threadArguments s) @ drop (unat iter) ?P"
      using "1.prems"(3) u by (simp add: ta suc launch_step_def take_Suc_update nth)
    have th': "threads s' = take (unat iter) (threads s)
                 @ map (\<lambda>i. pthread_create_out env (of_nat i)) [unat iter..<unat N]"
      using "1.prems"(4) u by (simp add: th suc launch_step_def take_Suc_update upt_conv_Cons)
    have tr': "trace s' = trace s @ map (\<lambda>i. PthreadCreate (of_nat i)) [unat iter..<unat N]"
      using u by (simp add: tr suc launch_step_def upt_conv_Cons)
    have res': "result s' = (if iter < N then 0 else result s)"
      using True ok by (simp add: res launch_step_def)
    from loop ta' th' tr' res' show ?thesis
      by (intro exI [of _ s'] conjI)
  qed
qed

lemma constructed_assignments:
  assumes "\<forall>i<numberOfCpuCores. launch_result env i = 0"
  shows "\<exists>s'. launch_loop env numberOfCpuCores 0 (initial_state numberOfCpuCores) = Inr s'
           \<and> threadArguments s'
             = partition_domain (get_current_dir_name env) ULONG_MAX numberOfCpuCores
           \<and> threads s'
             = map (\<lambda>i. pthread_create_out env (of_nat i)) [0..<unat numberOfCpuCores]
           \<and> trace s' = map (\<lambda>i. PthreadCreate (of_nat i)) [0..<unat numberOfCpuCores]
           \<and> result s' = 0"
proof -
  have "\<forall>i. 0 \<le> i \<and> i < numberOfCpuCores \<longrightarrow> launch_result env i = 0"
    using assms by simp
  moreover have "length (threadArguments (initial_state numberOfCpuCores)) = unat numberOfCpuCores"
    and "length (threads (initial_state numberOfCpuCores)) = unat numberOfCpuCores"
    by (simp_all add: initial_state_def)
  ultimately obtain s' where
    "launch_loop env numberOfCpuCores 0 (initial_state numberOfCpuCores) = Inr s'"
    "threadArguments s'
       = take (unat (0 :: ulong)) (threadArguments (initial_state numberOfCpuCores))
         @ drop (unat (0 :: ulong))
             (partition_domain (get_current_dir_name env) ULONG_MAX numberOfCpuCores)"
    "threads s'
       = take (unat (0 :: ulong)) (threads (initial_state numberOfCpuCores))
         @ map (\<lambda>i. pthread_create_out env (of_nat i)) [unat (0 :: ulong)..<unat numberOfCpuCores]"
    "trace s'
       = trace (initial_state numberOfCpuCores)
         @ map (\<lambda>i. PthreadCreate (of_nat i)) [unat (0 :: ulong)..<unat numberOfCpuCores]"
    "result s' = (if 0 < numberOfCpuCores then 0 else result (initial_state numberOfCpuCores))"
    using launch_loop_all_succeed [of 0 numberOfCpuCores env "initial_state numberOfCpuCores"]
    by (elim meta_impE exE conjE) simp_all
  then show ?thesis
    by (intro exI [of _ s']) (simp add: initial_state_def EXIT_SUCCESS_def)
qed

text \<open>
  What \<open>main\<close> returns on the paths that reach a \<open>return\<close> or \<open>err\<close>: 0 when every
  launch and every join succeeds; \<open>EXIT_FAILURE\<close> when an allocation fails, which
  includes the error value \<open>-1\<close> of \<open>sysconf\<close> (the request overflows); and
  \<open>EXIT_FAILURE\<close> for 22 execution units, since the test in line 68 compares the count
  with \<open>EINVAL\<close>.  A failing launch step never reaches a \<open>return\<close>.
\<close>

lemma join_loop_keeps_zero:
  assumes "\<forall>handle. pthread_join_rc env handle = 0" and "result s = 0"
  shows "result (join_loop env numberOfCpuCores iter s) = 0"
  using assms
proof (induction env numberOfCpuCores iter s rule: join_loop.induct)
  case (1 env N iter s)
  show ?case
  proof (cases "iter < N \<and> threads s ! unat iter \<noteq> 0")
    case False
    then have "join_loop env N iter s = s"
      by (subst join_loop.simps) (simp only: if_False)
    with "1.prems"(2) show ?thesis
      by simp
  next
    case True
    let ?r = "pthread_join_rc env (threads s ! unat iter)"
    let ?s1 = "s\<lparr>result := ?r,
                 trace := trace s @ [PthreadJoin iter (threads s ! unat iter)]
                   @ (if ?r \<noteq> 0 then [Diagnostic (ThreadJoinError ?r)] else [])\<rparr>"
    have "result ?s1 = 0"
      using "1.prems"(1) by simp
    with "1.IH" [OF True refl "1.prems"(1)] have "result (join_loop env N (iter + 1) ?s1) = 0"
      by simp
    moreover have "join_loop env N iter s = join_loop env N (iter + 1) ?s1"
      using True by (subst join_loop.simps) (simp add: Let_def)
    ultimately show ?thesis
      by simp
  qed
qed

lemma main_all_succeed:
  assumes "sigaction_rc env \<noteq> - 1"
    and "sysconf_NPROCESSORS_ONLN env \<noteq> 22"
    and "calloc_succeeds env (sysconf_NPROCESSORS_ONLN env) sizeof_pthread_t"
    and "calloc_succeeds env (sysconf_NPROCESSORS_ONLN env) sizeof_ThreadArguments"
    and "\<forall>i. i < sysconf_NPROCESSORS_ONLN env \<longrightarrow> launch_result env i = 0"
    and "\<forall>handle. pthread_join_rc env handle = 0"
  shows "fst (main env) = Exit EXIT_SUCCESS"
proof -
  let ?N = "sysconf_NPROCESSORS_ONLN env"
  from constructed_assignments [OF assms(5)]
  obtain s' where run: "launch_loop env ?N 0 (initial_state ?N) = Inr s'" and res: "result s' = 0"
    by (elim exE conjE)
  have "result (join_loop env ?N 0 s') = 0"
    using assms(6) res by (rule join_loop_keeps_zero)
  with assms(1-4) run res show ?thesis
    by (simp add: main_def Let_def EINVAL_def EXIT_FAILURE_def EXIT_SUCCESS_def)
qed

lemma launch_failure_never_returns:
  assumes "\<exists>k. iter \<le> k \<and> k < numberOfCpuCores \<and> launch_result env k \<noteq> 0"
  shows "\<exists>tr. launch_loop env numberOfCpuCores iter s = Inl tr"
  using assms
proof (induction env numberOfCpuCores iter s rule: launch_loop.induct)
  case (1 env N iter s)
  from "1.prems" obtain k where k: "iter \<le> k" "k < N" "launch_result env k \<noteq> 0"
    by (elim exE conjE)
  then have lt: "iter < N"
    by simp
  show ?case
  proof (cases "launch_result env iter \<noteq> 0")
    case True
    obtain tr where "cancel_loop env N iter
                       ((launch_step env N iter s)
                          \<lparr>trace := trace (launch_step env N iter s)
                             @ [Diagnostic (ThreadCreationResult (launch_result env iter))]\<rparr>)
                     = Inl tr"
      using cancel_loop_never_exits by blast
    with lt True show ?thesis
      by (subst launch_loop.simps) simp
  next
    case False
    with k have "k \<noteq> iter"
      by auto
    with k(1) have "iter < k"
      by simp
    then have "iter + 1 \<le> k"
      by (simp add: inc_le)
    with k have "\<exists>k. iter + 1 \<le> k \<and> k < N \<and> launch_result env k \<noteq> 0"
      by (intro exI [of _ k] conjI)
    from "1.IH" [OF lt False this] obtain tr
      where "launch_loop env N (iter + 1) (launch_step env N iter s) = Inl tr"
      by (elim exE)
    with lt False show ?thesis
      by (subst launch_loop.simps) simp
  qed
qed

lemma main_spawn_failure:
  assumes "sigaction_rc env \<noteq> - 1"
    and "sysconf_NPROCESSORS_ONLN env \<noteq> 22"
    and "calloc_succeeds env (sysconf_NPROCESSORS_ONLN env) sizeof_pthread_t"
    and "calloc_succeeds env (sysconf_NPROCESSORS_ONLN env) sizeof_ThreadArguments"
    and "k < sysconf_NPROCESSORS_ONLN env" and "launch_result env k \<noteq> 0"
  shows "fst (main env) = OutOfBoundsAccess"
proof -
  let ?N = "sysconf_NPROCESSORS_ONLN env"
  from assms(5,6) have "\<exists>k. 0 \<le> k \<and> k < ?N \<and> launch_result env k \<noteq> 0"
    by (intro exI [of _ k]) simp
  from launch_failure_never_returns [OF this, where s = "initial_state ?N"]
  obtain tr where "launch_loop env ?N 0 (initial_state ?N) = Inl tr"
    by (elim exE)
  with assms(1-4) show ?thesis
    by (simp add: main_def Let_def EINVAL_def)
qed

lemma main_allocation_failure:
  assumes "sigaction_rc env \<noteq> - 1"
    and "\<not> calloc_succeeds env (sysconf_NPROCESSORS_ONLN env) sizeof_pthread_t
         \<or> \<not> calloc_succeeds env (sysconf_NPROCESSORS_ONLN env) sizeof_ThreadArguments"
  shows "fst (main env) = Exit EXIT_FAILURE"
  using assms by (auto simp: main_def Let_def)

lemma main_sysconf_error:
  assumes "sigaction_rc env \<noteq> - 1" and "sysconf_NPROCESSORS_ONLN env = - 1"
  shows "main env = (Exit EXIT_FAILURE, [Diagnostic MemoryAllocationError])"
proof -
  have "unat (- 1 :: ulong) = 2 ^ 64 - 1"
    by (simp add: unsigned_minus_1_eq_mask mask_eq_exp_minus_1)
  then have "\<not> calloc_succeeds env (- 1) sizeof_pthread_t"
    by (simp add: calloc_succeeds_def sizeof_pthread_t_def)
  moreover have "scast EINVAL \<noteq> (- 1 :: ulong)"
    by (simp add: EINVAL_def)
  ultimately show ?thesis
    using assms by (simp add: main_def Let_def)
qed

lemma main_22_units:
  assumes "sigaction_rc env \<noteq> - 1" and "sysconf_NPROCESSORS_ONLN env = 22"
  shows "main env = (Exit EXIT_FAILURE, [Diagnostic CantEnumerateCores])"
  using assms by (simp add: main_def Let_def EINVAL_def)

text \<open>
  Claim C6 says that after a failed spawn of worker \<open>k\<close> the workers \<open>0..k-1\<close> are
  cancelled, the dispatcher reports failure and the status is nonzero.  The code does
  not get there.  On two units with the spawn of worker 1 failing with code 11, worker 0
  is cancelled, then \<open>iter\<close> wraps from 0 to the largest \<open>size_t\<close> and \<open>threads[iter]\<close>
  is read outside the array; lines 123-124 are never reached.  On one unit with the
  spawn of worker 0 failing, the first read is already outside the array.
\<close>

theorem spawn_failure_runs_out_of_bounds:
  "main (two_units\<lparr>pthread_create_rc := (\<lambda>iter. if iter = 1 then 11 else 0),
                    pthread_create_out := (\<lambda>iter. if iter = 1 then 0 else 1000 + iter)\<rparr>)
   = (OutOfBoundsAccess,
      [PthreadCreate 0, PthreadCreate 1, Diagnostic (ThreadCreationResult 11),
       PthreadCancel 0 1000])
   \<and> main (two_units\<lparr>sysconf_NPROCESSORS_ONLN := 1,
                      pthread_create_rc := (\<lambda>iter. 11),
                      pthread_create_out := (\<lambda>iter. 0)\<rparr>)
   = (OutOfBoundsAccess, [PthreadCreate 0, Diagnostic (ThreadCreationResult 11)])"
  by (simp add: eval_main)

theorem spawn_failure_runs_out_of_bounds_witness:
  "fst (main (two_units\<lparr>pthread_create_rc := (\<lambda>iter. if iter = 1 then 11 else 0),
                         pthread_create_out := (\<lambda>iter. if iter = 1 then 0 else 1000 + iter)\<rparr>))
   = OutOfBoundsAccess
   \<and> fst (main (two_units\<lparr>sysconf_NPROCESSORS_ONLN := 1,
                           pthread_create_rc := (\<lambda>iter. 11),
                           pthread_create_out := (\<lambda>iter. 0)\<rparr>))
   = OutOfBoundsAccess"
  using spawn_failure_runs_out_of_bounds by (simp only: fst_conv)

text \<open>
  Claim C7 says that the status is nonzero if any join fails.  On two units with all
  spawns succeeding, the join of worker 0 failing with code 3 and the join of worker 1
  succeeding, \<open>result\<close> is overwritten by the second join and \<open>main\<close> returns 0.  With
  zero execution units reported and the allocator granting the empty requests, \<open>main\<close>
  returns 0 as well.
\<close>

theorem join_failure_is_overwritten:
  "main (two_units\<lparr>pthread_join_rc := (\<lambda>handle. if handle = 1000 then 3 else 0)\<rparr>)
   = (Exit 0,
      [PthreadCreate 0, PthreadCreate 1, PthreadJoin 0 1000, Diagnostic (ThreadJoinError 3),
       PthreadJoin 1 1001])
   \<and> main (two_units\<lparr>sysconf_NPROCESSORS_ONLN := 0\<rparr>) = (Exit 0, [])"
  by (simp add: eval_main)

theorem join_failure_is_overwritten_witness:
  "fst (main (two_units\<lparr>pthread_join_rc := (\<lambda>handle. if handle = 1000 then 3 else 0)\<rparr>))
   = Exit EXIT_SUCCESS
   \<and> fst (main (two_units\<lparr>sysconf_NPROCESSORS_ONLN := 0\<rparr>)) = Exit EXIT_SUCCESS"
  using join_failure_is_overwritten by (simp only: fst_conv EXIT_SUCCESS_def)

section \<open>Properties of the cancellation flag\<close>

lemma flag_history_length: "length (flag_history v es) = Suc (length es)"
  by (induction es arbitrary: v) simp_all

lemma flag_step_cases: "flag_step v e = v \<or> (flag_step v e = 1 \<and> (\<exists>sig. e = HandlerRuns sig))"
  by (cases e) (simp_all add: handleQuitSignal_def)

lemma flag_step_set: "v \<noteq> 0 \<Longrightarrow> flag_step v e \<noteq> 0"
  by (cases e) (simp_all add: handleQuitSignal_def)

lemma flag_history_Suc:
  "i < length es \<Longrightarrow> flag_history v es ! Suc i = flag_step (flag_history v es ! i) (es ! i)"
proof (induction es arbitrary: v i)
  case Nil
  then show ?case by simp
next
  case (Cons e es)
  show ?case
  proof (cases i)
    case 0
    then show ?thesis
      by (cases es) simp_all
  next
    case (Suc i')
    with Cons.prems have "i' < length es"
      by simp
    from Cons.IH [OF this] Suc show ?thesis
      by simp
  qed
qed

lemma flag_history_stays_set:
  assumes "i \<le> j" and "j < length (flag_history v es)" and "flag_history v es ! i \<noteq> 0"
  shows "flag_history v es ! j \<noteq> 0"
  using assms
proof (induction "j - i" arbitrary: j)
  case 0
  then show ?case by simp
next
  case (Suc d)
  then obtain j' where j: "j = Suc j'" and ij: "i \<le> j'" and d: "d = j' - i"
    by (cases j) auto
  from Suc.prems(2) j have len: "j' < length es"
    by (simp add: flag_history_length)
  then have "j' < length (flag_history v es)"
    by (simp add: flag_history_length)
  from Suc.hyps(1) [OF d ij this Suc.prems(3)] have "flag_history v es ! j' \<noteq> 0" .
  then show ?case
    unfolding j flag_history_Suc [OF len] by (rule flag_step_set)
qed

lemma flag_history_values:
  assumes "v = 0 \<or> v = 1" and "i < length (flag_history v es)"
  shows "flag_history v es ! i = 0 \<or> flag_history v es ! i = 1"
  using assms
proof (induction es arbitrary: v i)
  case Nil
  then show ?case by simp
next
  case (Cons e es)
  show ?case
  proof (cases i)
    case 0
    with Cons.prems(1) show ?thesis by simp
  next
    case (Suc i')
    from Cons.prems(1) flag_step_cases [of v e] have "flag_step v e = 0 \<or> flag_step v e = 1"
      by auto
    moreover from Cons.prems(2) Suc have "i' < length (flag_history (flag_step v e) es)"
      by simp
    ultimately have "flag_history (flag_step v e) es ! i' = 0
                     \<or> flag_history (flag_step v e) es ! i' = 1"
      by (rule Cons.IH)
    with Suc show ?thesis by simp
  qed
qed

text \<open>
  Claim C9.  After line 51 the flag is 0.  Along every sequence of handler runs and
  worker reads: once the flag is nonzero it is nonzero at every later point; the flag
  changes only in a step that is a run of the handler, and then from 0 to 1; and it
  changes in at most one step.
\<close>

theorem flag_set_at_most_once:
  "flag_history main_line_51 es ! 0 = 0
   \<and> (\<forall>i j. i \<le> j \<and> j < length (flag_history main_line_51 es)
             \<and> flag_history main_line_51 es ! i \<noteq> 0
          \<longrightarrow> flag_history main_line_51 es ! j \<noteq> 0)
   \<and> (\<forall>i<length es.
         flag_history main_line_51 es ! Suc i \<noteq> flag_history main_line_51 es ! i
         \<longrightarrow> (\<exists>sig. es ! i = HandlerRuns sig)
             \<and> flag_history main_line_51 es ! i = 0
             \<and> flag_history main_line_51 es ! Suc i = 1)
   \<and> (\<forall>i j. i < length es \<and> j < length es
          \<and> flag_history main_line_51 es ! Suc i \<noteq> flag_history main_line_51 es ! i
          \<and> flag_history main_line_51 es ! Suc j \<noteq> flag_history main_line_51 es ! j
          \<longrightarrow> i = j)"
proof -
  let ?h = "flag_history main_line_51 es"
  have start: "?h ! 0 = 0"
    by (cases es) (simp_all add: main_line_51_def)
  have mono: "?h ! j \<noteq> 0" if "i \<le> j" "j < length ?h" "?h ! i \<noteq> 0" for i j
    using that by (rule flag_history_stays_set)
  have change: "(\<exists>sig. es ! i = HandlerRuns sig) \<and> ?h ! i = 0 \<and> ?h ! Suc i = 1"
    if i: "i < length es" and ne: "?h ! Suc i \<noteq> ?h ! i" for i
  proof -
    from flag_history_Suc [OF i] have eq: "?h ! Suc i = flag_step (?h ! i) (es ! i)" .
    with ne flag_step_cases [of "?h ! i" "es ! i"]
    have one: "?h ! Suc i = 1" and handler: "\<exists>sig. es ! i = HandlerRuns sig"
      by auto
    from i have "i < length ?h"
      by (simp add: flag_history_length)
    then have "?h ! i = 0 \<or> ?h ! i = 1"
      by (intro flag_history_values) (simp add: main_line_51_def)
    with one ne have "?h ! i = 0"
      by auto
    with one handler show ?thesis
      by (intro conjI)
  qed
  have once: "i = j"
    if i: "i < length es" and j: "j < length es"
      and ci: "?h ! Suc i \<noteq> ?h ! i" and cj: "?h ! Suc j \<noteq> ?h ! j" for i j
  proof (rule ccontr)
    assume "i \<noteq> j"
    then consider "Suc i \<le> j" | "Suc j \<le> i"
      by (auto simp: neq_iff)
    then show False
    proof cases
      case 1
      from change [OF i ci] have "?h ! Suc i \<noteq> 0" by simp
      with 1 j have "?h ! j \<noteq> 0"
        by (intro mono [of "Suc i" j]) (simp_all add: flag_history_length)
      with change [OF j cj] show False by simp
    next
      case 2
      from change [OF j cj] have "?h ! Suc j \<noteq> 0" by simp
      with 2 i have "?h ! i \<noteq> 0"
        by (intro mono [of "Suc j" i]) (simp_all add: flag_history_length)
      with change [OF i ci] show False by simp
    qed
  qed
  show ?thesis
  proof (intro conjI allI impI)
    show "?h ! 0 = 0" by (rule start)
  next
    fix i j
    assume "i \<le> j \<and> j < length ?h \<and> ?h ! i \<noteq> 0"
    then show "?h ! j \<noteq> 0"
      by (intro mono [of i j]) simp_all
  next
    fix i
    assume "i < length es" and "?h ! Suc i \<noteq> ?h ! i"
    then show "\<exists>sig. es ! i = HandlerRuns sig" and "?h ! i = 0" and "?h ! Suc i = 1"
      using change [of i] by simp_all
  next
    fix i j
    assume "i < length es \<and> j < length es \<and> ?h ! Suc i \<noteq> ?h ! i \<and> ?h ! Suc j \<noteq> ?h ! j"
    then show "i = j"
      by (intro once) simp_all
  qed
qed

theorem flag_set_at_most_once_witness:
  "flag_history main_line_51 [WorkerReads, HandlerRuns 3, WorkerReads, HandlerRuns 3, WorkerReads]
   = [0, 0, 1, 1, 1, 1]
   \<and> flag_history main_line_51
        [WorkerReads, HandlerRuns 3, WorkerReads, HandlerRuns 3, WorkerReads] ! 5 \<noteq> 0"
proof -
  let ?es = "[WorkerReads, HandlerRuns 3, WorkerReads, HandlerRuns 3, WorkerReads]"
  have h: "flag_history main_line_51 ?es = [0, 0, 1, 1, 1, 1]"
    by (simp add: main_line_51_def handleQuitSignal_def)
  have "(2 :: nat) \<le> 5 \<and> 5 < length (flag_history main_line_51 ?es)
        \<and> flag_history main_line_51 ?es ! 2 \<noteq> 0"
    unfolding h by simp
  with flag_set_at_most_once [of ?es, THEN conjunct2, THEN conjunct1, THEN spec, THEN spec, of 2 5]
  have "flag_history main_line_51 ?es ! 5 \<noteq> 0"
    by (rule mp)
  with h show ?thesis
    by (intro conjI)
qed

end
